theory Spec2Isabelle
  imports Complex_Main "HOL-Library.Multiset" "HOL-Library.AList"
begin

section \<open>JavaScript values and strings\<close>

text \<open>
  The trivia game is written in JavaScript. A string is modelled as a list of code
  units; the 8-bit \<^typ>\<open>char\<close> covers the code units U+0000 to U+00FF, and the
  built-in string functions below are written out for that range (for other code
  units the built-ins consult Unicode tables that are not part of the program).

  A value that may be absent is a \<open>jsval\<close>: the handlers pass \<open>undefined\<close>,
  \<open>null\<close>, numbers and strings around in the same variables. The numbers of the
  program are counts and positions: integers, far below the size (\<open>2^53\<close>) from
  which a double no longer holds every integer.
\<close>

datatype jsval = Undefined | Null | Num int | Str string

datatype js_error = TypeError | RangeError

text \<open>Truthiness, as \<open>if (x)\<close> and \<open>x && y\<close> read a value.\<close>

fun truthy :: "jsval \<Rightarrow> bool" where
  "truthy Undefined = False"
| "truthy Null = False"
| "truthy (Num n) = (n \<noteq> 0)"
| "truthy (Str s) = (s \<noteq> [])"

text \<open>
  \<open>String.prototype.toLowerCase\<close> (and \<open>toLocaleLowerCase\<close> in a locale without
  special casing rules): in the range U+0000 to U+00FF the letters A to Z and the
  capital letters U+00C0 to U+00DE, the multiplication sign U+00D7 apart, move up by 32.
\<close>

definition toLowerCase_char :: "char \<Rightarrow> char" where
  "toLowerCase_char c =
     (let n = (of_char c :: nat) in
      if (65 \<le> n \<and> n \<le> 90) \<or> (192 \<le> n \<and> n \<le> 222 \<and> n \<noteq> 215)
      then char_of (n + 32) else c)"

definition toLowerCase :: "string \<Rightarrow> string" where
  "toLowerCase s = map toLowerCase_char s"

text \<open>
  \<open>String.prototype.trim\<close> removes white space and line terminators from both ends:
  tab, line feed, vertical tab, form feed, carriage return, space and the no-break
  space U+00A0.
\<close>

definition isWhiteSpace :: "char \<Rightarrow> bool" where
  "isWhiteSpace c = ((of_char c :: nat) \<in> {9, 10, 11, 12, 13, 32, 160})"

definition trim :: "string \<Rightarrow> string" where
  "trim s = rev (dropWhile isWhiteSpace (rev (dropWhile isWhiteSpace s)))"

text \<open>
  \<open>s.split(sep)\<close> for a one-character separator: the pieces between the
  separators, empty pieces included; the empty string gives one empty piece.
\<close>

fun split :: "char \<Rightarrow> string \<Rightarrow> string list" where
  "split sep [] = [[]]"
| "split sep (c # cs) =
     (if c = sep then [] # split sep cs
      else (case split sep cs of
              [] \<Rightarrow> [[c]]
            | w # ws \<Rightarrow> (c # w) # ws))"

text \<open>\<open>xs.join(sep)\<close> for a one-character separator.\<close>

fun join :: "char \<Rightarrow> string list \<Rightarrow> string" where
  "join sep [] = []"
| "join sep [w] = w"
| "join sep (w # v # ws) = w @ sep # join sep (v # ws)"

text \<open>
  Array reads and \<open>splice(index, 1)\<close>. A read outside the array gives
  \<open>undefined\<close> (\<open>None\<close>). \<open>splice\<close> counts a negative index from the end
  (and not before the start), and removes nothing at or past the length.
\<close>

definition js_get :: "'a list \<Rightarrow> int \<Rightarrow> 'a option" where
  "js_get xs i = (if 0 \<le> i \<and> i < int (length xs) then Some (xs ! nat i) else None)"

definition remove_nth :: "nat \<Rightarrow> 'a list \<Rightarrow> 'a list" where
  "remove_nth n xs = take n xs @ drop (Suc n) xs"

definition splice1 :: "int \<Rightarrow> 'a list \<Rightarrow> 'a list" where
  "splice1 i xs =
     (let start = (if i < 0 then max (int (length xs) + i) 0 else min i (int (length xs)))
      in remove_nth (nat start) xs)"

text \<open>
  \<open>xs.indexOf(x)\<close>: the first position of \<open>x\<close>, or \<open>-1\<close>.
\<close>

fun indexOf :: "'a list \<Rightarrow> 'a \<Rightarrow> int" where
  "indexOf [] x = -1"
| "indexOf (y # ys) x = (if y = x then 0 else (let k = indexOf ys x in if k = -1 then -1 else k + 1))"

text \<open>
  \<open>parseInt\<close> without a radix: leading white space is skipped, a sign is read, a
  prefix \<open>0x\<close> or \<open>0X\<close> selects radix 16, and the longest run of digits is the number;
  no digit gives \<open>NaN\<close> (\<open>None\<close>). The result is kept exact (JavaScript rounds it to
  a double, which does not change how it compares with an array length).
\<close>

definition digitValue :: "char \<Rightarrow> nat option" where
  "digitValue c =
     (let n = (of_char c :: nat) in
      if 48 \<le> n \<and> n \<le> 57 then Some (n - 48)
      else if 97 \<le> n \<and> n \<le> 122 then Some (n - 87)
      else if 65 \<le> n \<and> n \<le> 90 then Some (n - 55)
      else None)"

definition isRadixDigit :: "nat \<Rightarrow> char \<Rightarrow> bool" where
  "isRadixDigit radix c = (case digitValue c of None \<Rightarrow> False | Some d \<Rightarrow> d < radix)"

definition digitsValue :: "nat \<Rightarrow> string \<Rightarrow> int" where
  "digitsValue radix ds =
     foldl (\<lambda>acc c. acc * int radix + (case digitValue c of None \<Rightarrow> 0 | Some d \<Rightarrow> int d)) 0 ds"

definition parseInt_string :: "string \<Rightarrow> int option" where
  "parseInt_string inputString =
     (let s = dropWhile isWhiteSpace inputString;
          sign = (if take 1 s = ''-'' then -1 else 1 :: int);
          s1 = (if take 1 s = ''-'' \<or> take 1 s = ''+'' then drop 1 s else s);
          hex = (take 2 s1 = ''0x'' \<or> take 2 s1 = ''0X'');
          radix = (if hex then 16 else 10);
          s2 = (if hex then drop 2 s1 else s1);
          z = takeWhile (isRadixDigit radix) s2
      in if z = [] then None else Some (sign * digitsValue radix z))"

text \<open>
  \<open>parseInt\<close> of a value first turns it into a string: \<open>undefined\<close> and \<open>null\<close>
  hold no digit, an integer reads back as itself.
\<close>

fun parseInt :: "jsval \<Rightarrow> int option" where
  "parseInt (Str s) = parseInt_string s"
| "parseInt (Num n) = Some n"
| "parseInt Undefined = None"
| "parseInt Null = None"

section \<open>utils.js: string comparison\<close>

definition SEPARATOR :: char where
  "SEPARATOR = CHR ''|''"

definition SPACE :: char where
  "SPACE = CHR '' ''"

text \<open>
  \<open>removePunctuationAndSpaces\<close>: the regular expression deletes every character of
  the class \<open>. , / # ! $ % ^ & * ; : { } = - _ ` ~ ( )\<close>, then every space.
\<close>

definition punctuation :: "char list" where
  "punctuation = ''.,/#!$%^&*;:{}=-_`~()''"

definition removePunctuationAndSpaces :: "string \<Rightarrow> string" where
  "removePunctuationAndSpaces v =
     filter (\<lambda>c. c \<noteq> CHR '' '') (filter (\<lambda>c. c \<notin> set punctuation) v)"

text \<open>
  Modelled from the spec: the distance computed by the npm package \<open>levenshtein\<close>,
  which \<open>fuzzyMatch\<close> calls and which is not among the repository's sources. The spec
  calls it the edit distance; it is defined by the usual recurrence over insertions,
  deletions and substitutions of one character.
\<close>

fun levenshtein :: "'a list \<Rightarrow> 'a list \<Rightarrow> nat" where
  "levenshtein [] ys = length ys"
| "levenshtein (x # xs) [] = Suc (length xs)"
| "levenshtein (x # xs) (y # ys) =
     (if x = y then levenshtein xs ys
      else Suc (min (levenshtein xs (y # ys))
                    (min (levenshtein (x # xs) ys) (levenshtein xs ys))))"

definition fuzzyMatch :: "string \<Rightarrow> string \<Rightarrow> bool" where
  "fuzzyMatch value1 value2 =
     (let v1 = removePunctuationAndSpaces (toLowerCase value1);
          v2 = removePunctuationAndSpaces (toLowerCase value2)
      in (length v1 > 3 \<and> length v2 > 3) \<and> levenshtein v1 v2 \<le> 1)"

text \<open>
  \<open>compareStrings\<close>: a falsy argument gives \<open>false\<close>; a truthy argument that is not a
  string has no \<open>toLocaleLowerCase\<close>, and the call raises a TypeError.
\<close>

fun compareStrings :: "jsval \<Rightarrow> jsval \<Rightarrow> js_error + bool" where
  "compareStrings (Str a) (Str b) =
     (if a \<noteq> [] \<and> b \<noteq> [] then Inr (trim (toLowerCase a) = trim (toLowerCase b))
      else Inr False)"
| "compareStrings string1 string2 =
     (if truthy string1 \<and> truthy string2 then Inl TypeError else Inr False)"

section \<open>utils.js: generateSynonyms\<close>

text \<open>
  \<open>generateSynonyms\<close> keeps its groups in \<open>synonyms\<close>, a JavaScript array used as
  a dictionary from the trimmed answers to their groups. It is modelled as an
  association list in the order in which the keys were first assigned;
  \<open>AList.update\<close> is the assignment \<open>synonyms[key] = group\<close> and \<open>map_of\<close> the read
  \<open>synonyms[key]\<close> (\<open>None\<close> for \<open>undefined\<close>). Two property names are special on an
  array. Assigning a group to \<open>length\<close> raises a RangeError, which the model returns.
  Assigning to \<open>__proto__\<close> replaces the prototype of the array instead of adding a
  key; the model does not cover that name, and the theorems below exclude it.
\<close>

type_synonym synonyms = "(string \<times> string list) list"

text \<open>
  \<open>for (const key in synonyms)\<close> enumerates the array indices first, in ascending
  numeric order, then the other keys in the order of their creation. An array index is
  the decimal numeral, without leading zeros, of a number below \<open>2^32 - 1 = 4294967295\<close>.
\<close>

definition isArrayIndex :: "string \<Rightarrow> bool" where
  "isArrayIndex k =
     (k \<noteq> [] \<and> list_all (isRadixDigit 10) k \<and> (k = ''0'' \<or> take 1 k \<noteq> ''0'')
      \<and> digitsValue 10 k < 4294967295)"

definition for_in_keys :: "synonyms \<Rightarrow> string list" where
  "for_in_keys syn =
     sort_key (digitsValue 10) (filter isArrayIndex (map fst syn))
       @ filter (\<lambda>k. \<not> isArrayIndex k) (map fst syn)"

definition isIgnorableWord :: "string \<Rightarrow> bool" where
  "isIgnorableWord result =
     (result = ''the'' \<or> result = ''a'' \<or> result = ''and'' \<or> result = ''or'' \<or> result = ''&''
      \<or> result = ''of'' \<or> result = ''for'' \<or> result = ''an'' \<or> result = ''by'')"

text \<open>
  The words of a phrase: \<open>split(' ')\<close>, then the backwards loop that splices out
  every word whose lower-cased, trimmed form is ignorable.
\<close>

definition wordsOf :: "string \<Rightarrow> string list" where
  "wordsOf v = filter (\<lambda>w. \<not> isIgnorableWord (trim (toLowerCase w))) (split SPACE v)"

text \<open>The loop \<open>for (l ...)\<close> that pushes the words not yet in \<open>allValues\<close>.\<close>

fun pushNew :: "string list \<Rightarrow> string list \<Rightarrow> string list" where
  "pushNew allValues [] = allValues"
| "pushNew allValues (r # results) =
     pushNew (if indexOf allValues r = -1 then allValues @ [r] else allValues) results"

text \<open>The loop \<open>for (k ...)\<close> over the alternatives of an answer with separators.\<close>

fun pushSplits :: "string list \<Rightarrow> string list \<Rightarrow> string list" where
  "pushSplits allValues [] = allValues"
| "pushSplits allValues (s # splits) = pushSplits (pushNew allValues (wordsOf (trim s))) splits"

definition synonymsOf :: "string \<Rightarrow> string list" where
  "synonymsOf v =
     (if indexOf v SEPARATOR = -1 then
        (let results = wordsOf v
         in if indexOf results v = -1 then [v] @ results else results)
      else pushSplits [v] (split SEPARATOR v))"

fun findAllSynonyms :: "string list \<Rightarrow> synonyms \<Rightarrow> js_error + synonyms" where
  "findAllSynonyms [] synonyms = Inr synonyms"
| "findAllSynonyms (v # vs) synonyms =
     (let key = trim v
      in if key = ''length'' then Inl RangeError
         else findAllSynonyms vs (AList.update key (synonymsOf key) synonyms))"

text \<open>
  The loop \<open>for (j ...)\<close> of the callback over the clone of the group of \<open>value\<close>: a
  word that the clone of the other group holds is spliced out of the other group, at
  \<open>indexOf\<close> (which is \<open>-1\<close>, the last element, when the word is no longer there),
  and out of the group of \<open>value\<close> when it is still there. The state is the pair of
  the two groups.
\<close>

fun removeShared :: "string list \<Rightarrow> string list \<Rightarrow> string list \<times> string list
    \<Rightarrow> string list \<times> string list" where
  "removeShared [] otherSynonymsClone (valueSynonyms, otherSynonyms) = (valueSynonyms, otherSynonyms)"
| "removeShared (result # clone) otherSynonymsClone (valueSynonyms, otherSynonyms) =
     (if indexOf otherSynonymsClone result \<noteq> -1 then
        removeShared clone otherSynonymsClone
          (if indexOf valueSynonyms result \<noteq> -1
           then splice1 (indexOf valueSynonyms result) valueSynonyms else valueSynonyms,
           splice1 (indexOf otherSynonyms result) otherSynonyms)
      else removeShared clone otherSynonymsClone (valueSynonyms, otherSynonyms))"

text \<open>The loop \<open>for (const key in synonyms)\<close> for one value.\<close>

fun removeFromOthers :: "string \<Rightarrow> string list \<Rightarrow> string list \<Rightarrow> synonyms \<Rightarrow> synonyms" where
  "removeFromOthers v valueSynonymsClone [] synonyms = synonyms"
| "removeFromOthers v valueSynonymsClone (key # keys) synonyms =
     (if key \<noteq> v then
        (case (map_of synonyms v, map_of synonyms key) of
           (Some valueSynonyms, Some otherSynonyms) \<Rightarrow>
             (case removeShared valueSynonymsClone otherSynonyms (valueSynonyms, otherSynonyms) of
                (valueSynonyms', otherSynonyms') \<Rightarrow>
                  removeFromOthers v valueSynonymsClone keys
                    (AList.update v valueSynonyms' (AList.update key otherSynonyms' synonyms)))
         | _ \<Rightarrow> removeFromOthers v valueSynonymsClone keys synonyms)
      else removeFromOthers v valueSynonymsClone keys synonyms)"

text \<open>
  The loop \<open>for (i ...)\<close> of the callback: \<open>synonyms[value]\<close> is read with the value
  as given, not trimmed.
\<close>

fun removeDuplicates :: "string list \<Rightarrow> synonyms \<Rightarrow> synonyms" where
  "removeDuplicates [] synonyms = synonyms"
| "removeDuplicates (v # vs) synonyms =
     (case map_of synonyms v of
        Some valueSynonyms \<Rightarrow>
          removeDuplicates vs (removeFromOthers v valueSynonyms (for_in_keys synonyms) synonyms)
      | None \<Rightarrow> removeDuplicates vs synonyms)"

text \<open>The groups after the cross-deduplication pass.\<close>

definition dedupedSynonyms :: "string list \<Rightarrow> js_error + synonyms" where
  "dedupedSynonyms vs =
     (case findAllSynonyms vs [] of
        Inl e \<Rightarrow> Inl e
      | Inr synonyms \<Rightarrow> Inr (removeDuplicates vs synonyms))"

text \<open>The entry of the result for one value.\<close>

definition resultFor :: "synonyms \<Rightarrow> string \<Rightarrow> string" where
  "resultFor synonyms v =
     (let key = trim v
      in case map_of synonyms key of
           Some synonym \<Rightarrow> if synonym \<noteq> [] then join SEPARATOR synonym else key
         | None \<Rightarrow> key)"

definition generateSynonyms :: "string list \<Rightarrow> js_error + string list" where
  "generateSynonyms vs =
     (case dedupedSynonyms vs of
        Inl e \<Rightarrow> Inl e
      | Inr synonyms \<Rightarrow> Inr (map (resultFor synonyms) vs))"

text \<open>
  Notions for the proofs about the groups. A single word holds neither a space nor a
  separator. A group is in order for its key when it is empty or starts with the key,
  holds only the key and single words, and has at most one member when the key is
  itself a single word.
\<close>

definition singleWord :: "string \<Rightarrow> bool" where
  "singleWord w = (SPACE \<notin> set w \<and> SEPARATOR \<notin> set w)"

definition groupOk :: "string \<Rightarrow> string list \<Rightarrow> bool" where
  "groupOk k g =
     ((g = [] \<or> hd g = k) \<and> list_all (\<lambda>e. e = k \<or> singleWord e) g
      \<and> (if singleWord k then length g \<le> 1 else True))"

definition groupsOk :: "synonyms \<Rightarrow> bool" where
  "groupsOk syn = list_all (\<lambda>k. case map_of syn k of None \<Rightarrow> True | Some g \<Rightarrow> groupOk k g) (map fst syn)"

section \<open>Trivia game fulfillment: answers\<close>

text \<open>
  \<open>isValidAnswer\<close>: whether the value the function returns is truthy.
\<close>

definition isValidAnswer :: "jsval \<Rightarrow> 'a list \<Rightarrow> bool" where
  "isValidAnswer answer answers =
     (truthy answer \<and>
      (case parseInt answer of
         None \<Rightarrow> False
       | Some n \<Rightarrow> n < int (length answers) + 1 \<and> n > 0))"

text \<open>
  \<open>getSynonyms\<close>: the alternatives of an answer, separated by \<open>|\<close>, each trimmed.
  The argument is a string or \<open>undefined\<close> (\<open>None\<close>).
\<close>

definition getSynonyms :: "string option \<Rightarrow> string list" where
  "getSynonyms v =
     (case v of
        None \<Rightarrow> []
      | Some s \<Rightarrow> if s \<noteq> [] then map trim (split SEPARATOR s) else [])"

definition isTrueFalse :: "string list \<Rightarrow> bool" where
  "isTrueFalse answers =
     (case answers of
        [a, b] \<Rightarrow>
          (let answer1 = toLowerCase a; answer2 = toLowerCase b
           in (answer1 = ''true'' \<and> answer2 = ''false'') \<or> (answer2 = ''true'' \<and> answer1 = ''false''))
      | _ \<Rightarrow> False)"

definition isTrueFalseQuestion :: "string list \<Rightarrow> bool" where
  "isTrueFalseQuestion answers =
     (case answers of
        [a, b] \<Rightarrow>
          (case (getSynonyms (Some a), getSynonyms (Some b)) of
             (s1 # _, s2 # _) \<Rightarrow>
               if s1 \<noteq> [] \<and> s2 \<noteq> [] then isTrueFalse [toLowerCase s1, toLowerCase s2] else False
           | _ \<Rightarrow> False)
      | _ \<Rightarrow> False)"

subsection \<open>Random numbers\<close>

text \<open>
  \<open>Math.random()\<close> returns a number \<open>u\<close> with \<open>0 \<le> u < 1\<close>. The functions that
  draw random numbers take the sequence of the values \<open>Math.random()\<close> returns, as a
  list, and give back what is left of it; each call consumes the head. A function that
  needs a draw when the list is empty returns \<open>None\<close>: it is still running when the
  draws supplied to it are used up.
\<close>

definition getRandomNumber :: "int \<Rightarrow> int \<Rightarrow> real \<Rightarrow> int" where
  "getRandomNumber mn mx u = \<lfloor>u * real_of_int (mx - mn + 1)\<rfloor> + mn"

definition valid_draws :: "real list \<Rightarrow> bool" where
  "valid_draws rs = list_all (\<lambda>u. 0 \<le> u \<and> u < 1) rs"

subsection \<open>selectAnswers\<close>

text \<open>
  The \<open>for\<close> loop of \<open>selectAnswers\<close>, from position \<open>i\<close> on. An entry of the
  result is \<open>None\<close> where the code pushes \<open>undefined\<close> (a read of the emptied
  \<open>clonedAnswers\<close>).
\<close>

function selectAnswers_loop ::
  "nat \<Rightarrow> int \<Rightarrow> 'a list \<Rightarrow> 'a list \<Rightarrow> 'a option list \<Rightarrow> real list
     \<Rightarrow> ('a option list \<times> real list) option" where
  "selectAnswers_loop i correctIndex answers clonedAnswers selected rs =
     (if i < length answers then
        (if int i = correctIndex then
           selectAnswers_loop (i + 1) correctIndex answers clonedAnswers
             (selected @ [js_get answers 0]) rs
         else
           (case rs of
              [] \<Rightarrow> None
            | u # rs' \<Rightarrow>
                (let index = getRandomNumber 0 (int (length clonedAnswers) - 1) u
                 in selectAnswers_loop (i + 1) correctIndex answers (splice1 index clonedAnswers)
                      (selected @ [js_get clonedAnswers index]) rs')))
      else Some (selected, rs))"
  by pat_completeness auto
termination
  by (relation "measure (\<lambda>(i, c, answers, cl, sel, rs). length answers - i)") auto

declare selectAnswers_loop.simps [simp del]

text \<open>
  \<open>selectAnswers\<close> returns \<open>null\<close> (the inner \<open>None\<close>) for fewer than two answers.
\<close>

definition selectAnswers ::
  "int \<Rightarrow> 'a list \<Rightarrow> real list \<Rightarrow> ('a option list option \<times> real list) option" where
  "selectAnswers correctIndex answers rs =
     (if length answers > 1 then
        (case selectAnswers_loop 0 correctIndex answers (drop 1 answers) [] rs of
           None \<Rightarrow> None
         | Some (selected, rs') \<Rightarrow> Some (Some selected, rs'))
      else Some (None, rs))"

text \<open>
  \<open>startNewRound\<close> and \<open>nextQuestion\<close> choose the answers to present with the same
  lines: a true/false question keeps its stored answers (\<open>slice(0)\<close>) and
  \<open>correctIndex = 0\<close>; any other question draws \<open>correctIndex\<close> and calls
  \<open>selectAnswers\<close>. The result is \<open>(correctIndex, selectedAnswers)\<close>.
\<close>

definition presentAnswers ::
  "string list \<Rightarrow> real list \<Rightarrow> (int \<times> string option list option \<times> real list) option" where
  "presentAnswers selectedQuestionAnswers rs =
     (if isTrueFalseQuestion selectedQuestionAnswers
      then Some (0, Some (map Some selectedQuestionAnswers), rs)
      else
        (case rs of
           [] \<Rightarrow> None
         | u # rs' \<Rightarrow>
             (let correctIndex = getRandomNumber 0 (int (length selectedQuestionAnswers) - 1) u
              in case selectAnswers correctIndex selectedQuestionAnswers rs' of
                   None \<Rightarrow> None
                 | Some (selectedAnswers, rs'') \<Rightarrow> Some (correctIndex, selectedAnswers, rs''))))"

subsection \<open>selectQuestions\<close>

definition MAX_PREVIOUS_QUESTIONS :: nat where
  "MAX_PREVIOUS_QUESTIONS = 100"

text \<open>
  The inner \<open>while\<close> loop of \<open>selectQuestions\<close> over \<open>n\<close> questions: it draws an
  index until one is neither selected nor a previous question, or until \<open>checked\<close>
  holds \<open>n\<close> indices. One iteration consumes one draw. The result is
  \<open>(found, selected, checked)\<close> and the draws left.
\<close>

fun search ::
  "nat \<Rightarrow> int option list \<Rightarrow> int list \<Rightarrow> int list \<Rightarrow> real list
     \<Rightarrow> (bool \<times> int option list \<times> int list \<times> real list) option" where
  "search n selected previousQuestions checked [] =
     (if length checked \<noteq> n then None else Some (False, selected, checked, []))"
| "search n selected previousQuestions checked (u # rs) =
     (if length checked \<noteq> n then
        (let index = getRandomNumber 0 (int n - 1) u
         in if indexOf selected (Some index) = -1 \<and> indexOf previousQuestions index = -1
            then Some (True, selected @ [Some index], checked, rs)
            else search n selected previousQuestions
                   (if indexOf checked index = -1 then checked @ [index] else checked) rs)
      else Some (False, selected, checked, u # rs))"

text \<open>
  The outer \<open>while\<close> loop: when the search found nothing, the next previous question
  is reused (\<open>undefined\<close>, here \<open>None\<close>, past the end of \<open>previousQuestions\<close>).
\<close>

function selectQuestions_loop ::
  "nat \<Rightarrow> nat \<Rightarrow> nat \<Rightarrow> int list \<Rightarrow> int option list \<Rightarrow> int list \<Rightarrow> nat \<Rightarrow> real list
     \<Rightarrow> (int option list \<times> real list) option" where
  "selectQuestions_loop i gameLength n previousQuestions selected checked previousIndex rs =
     (if i < gameLength then
        (case search n selected previousQuestions checked rs of
           None \<Rightarrow> None
         | Some (found, selected', checked', rs') \<Rightarrow>
             if found
             then selectQuestions_loop (i + 1) gameLength n previousQuestions
                    selected' checked' previousIndex rs'
             else selectQuestions_loop (i + 1) gameLength n previousQuestions
                    (selected' @ [js_get previousQuestions (int previousIndex)]) checked'
                    (previousIndex + 1) rs')
      else Some (selected, rs))"
  by pat_completeness auto
termination
  by (relation "measure (\<lambda>(i, gameLength, r). gameLength - i)") auto

declare selectQuestions_loop.simps [simp del]

text \<open>
  \<open>selectQuestions\<close> for a list of questions, the current \<open>gameLength\<close> and the
  stored \<open>previousQuestions\<close>. The result is the selected indices, the new
  \<open>previousQuestions\<close>, the new \<open>gameLength\<close> and the draws left.
\<close>

definition trimPreviousQuestions :: "nat \<Rightarrow> nat \<Rightarrow> int list \<Rightarrow> int list" where
  "trimPreviousQuestions n gameLength previousQuestions =
     (if length previousQuestions > MAX_PREVIOUS_QUESTIONS \<or> length previousQuestions \<ge> n
      then drop gameLength previousQuestions else previousQuestions)"

definition selectQuestions ::
  "'q list \<Rightarrow> nat \<Rightarrow> int list \<Rightarrow> real list
     \<Rightarrow> (int option list \<times> int option list \<times> nat \<times> real list) option" where
  "selectQuestions questions gameLength0 previousQuestions0 rs =
     (let gameLength = (if gameLength0 > length questions then length questions else gameLength0);
          previousQuestions = trimPreviousQuestions (length questions) gameLength previousQuestions0
      in case selectQuestions_loop 0 gameLength (length questions) previousQuestions [] [] 0 rs of
           None \<Rightarrow> None
         | Some (selected, rs') \<Rightarrow>
             Some (selected, map Some previousQuestions @ selected, gameLength, rs'))"

text \<open>
  The index that \<open>selectQuestions\<close> computes from a draw, and the sequences of
  draws on which its loops are known to end: \<open>covers n k rs\<close> says that \<open>rs\<close>
  starts with \<open>k\<close> blocks in a row, in each of which every index below \<open>n\<close> is drawn.
\<close>

definition drawnIndex :: "nat \<Rightarrow> real \<Rightarrow> int" where
  "drawnIndex n u = getRandomNumber 0 (int n - 1) u"

inductive covers :: "nat \<Rightarrow> nat \<Rightarrow> real list \<Rightarrow> bool" where
  covers_0: "covers n 0 rs"
| covers_Suc: "{0..<int n} \<subseteq> drawnIndex n ` set blk \<Longrightarrow> covers n k rs \<Longrightarrow> covers n (Suc k) (blk @ rs)"

section \<open>Trivia game fulfillment: the session\<close>

text \<open>
  The fields of \<open>app.data\<close> that decide how a turn goes (the prompts and follow-ups
  only fill the text of the response). \<open>fallbackCount\<close> may be \<open>undefined\<close>, as
  may \<open>selectedAnswers\<close>; an entry of \<open>selectedAnswers\<close> is a string or
  \<open>undefined\<close>.
\<close>

record session =
  fallbackCount :: "int option"
  selectedAnswers :: "string option list option"
  correctAnswer :: int
  sessionAnswers :: "string list list"
  score :: int
  currentQuestion :: int
  gameLength :: int
  correct :: "bool option"

text \<open>
  What a request brings: the raw input, the arguments \<open>number\<close>, \<open>any\<close> and
  \<open>ordinal\<close> of the intent, the flags \<open>last\<close> and \<open>middle\<close> that \<open>lastIntent\<close>
  and \<open>middleIntent\<close> set before they call \<open>valueIntent\<close>, and whether the
  dictionary of all answers holds the lower-cased raw input (a failed read counts as
  no entry: the error callback calls \<open>handleNonDictionaryInput\<close>).
\<close>

record request =
  rawInput :: string
  argNumber :: jsval
  argAny :: jsval
  argOrdinal :: jsval
  lastFlag :: bool
  middleFlag :: bool
  inDictionary :: bool

text \<open>
  The response of a turn: the reprompt (\<open>ask\<close>), the offer to quit (\<open>ask\<close> in the
  \<open>quit\<close> context), the final \<open>tell\<close> that ends the conversation, the call of
  \<open>askQuestion\<close> for the next question, the end of the round (\<open>ask\<close> in the
  \<open>restart\<close> context) and the \<open>tell\<close> about a problem with the answers.
\<close>

datatype response = Reprompt | OfferToQuit | FinalTell | AskQuestion | RoundEnded | ProblemWithAnswers

text \<open>
  A handler ends with an error, or with the new session data, the response and the
  draws left; \<open>None\<close> when the draws ran out.
\<close>

type_synonym outcome = "(js_error + session \<times> response \<times> real list) option"

text \<open>\<open>Number.prototype.toString\<close> of a natural number.\<close>

function natToString :: "nat \<Rightarrow> string" where
  "natToString n =
     (if n < 10 then [char_of (48 + n)] else natToString (n div 10) @ [char_of (48 + n mod 10)])"
  by pat_completeness auto
termination
  by (relation "measure id") auto

declare natToString.simps [simp del]

definition nextQuestion :: "session \<Rightarrow> real list \<Rightarrow> outcome" where
  "nextQuestion s rs =
     (if currentQuestion s = gameLength s - 1 then Some (Inr (s, RoundEnded, rs))
      else
        (let currentQuestion' = currentQuestion s + 1
         in case js_get (sessionAnswers s) currentQuestion' of
              None \<Rightarrow> Some (Inl TypeError)
            | Some selectedQuestionAnswers \<Rightarrow>
                (case presentAnswers selectedQuestionAnswers rs of
                   None \<Rightarrow> None
                 | Some (correctIndex, Some selectedAnswers', rs') \<Rightarrow>
                     Some (Inr (s\<lparr>selectedAnswers := Some selectedAnswers',
                                   correctAnswer := correctIndex,
                                   fallbackCount := Some 0,
                                   currentQuestion := currentQuestion'\<rparr>, AskQuestion, rs'))
                 | Some (correctIndex, None, rs') \<Rightarrow> Some (Inr (s, ProblemWithAnswers, rs')))))"

text \<open>
  The loops of \<open>valueIntent\<close> and \<open>unknownIntent\<close> over the selected answers and
  their synonyms: the position of the first answer with a synonym that passes the
  test, counted from \<open>i\<close>.
\<close>

fun firstAnswer :: "(string \<Rightarrow> bool) \<Rightarrow> nat \<Rightarrow> string option list \<Rightarrow> nat option" where
  "firstAnswer test i [] = None"
| "firstAnswer test i (a # as) =
     (if list_ex test (getSynonyms a) then Some i else firstAnswer test (i + 1) as)"

text \<open>
  The fuzzy and partial matching of \<open>unknownIntent\<close>: the first selected answer
  with a synonym that fuzzy-matches the trimmed raw input or equals one of its parts.
\<close>

definition matchAnswers :: "string option list \<Rightarrow> string \<Rightarrow> nat option" where
  "matchAnswers answers raw =
     (let parts = split SPACE raw
      in firstAnswer (\<lambda>synonym. fuzzyMatch synonym raw
             \<or> list_ex (\<lambda>part. compareStrings (Str part) (Str synonym) = Inr True) parts)
           0 answers)"

definition handleNonDictionaryInput :: "session \<Rightarrow> int \<Rightarrow> real list \<Rightarrow> outcome" where
  "handleNonDictionaryInput s fallbackCount' rs =
     Some (Inr (s, if fallbackCount' = 1 then Reprompt
                   else if fallbackCount' = 2 then OfferToQuit
                   else FinalTell, rs))"

definition handleDictionaryInput :: "session \<Rightarrow> real list \<Rightarrow> outcome" where
  "handleDictionaryInput s rs =
     (case selectedAnswers s of
        None \<Rightarrow> Some (Inl TypeError)
      | Some answers \<Rightarrow> nextQuestion (s\<lparr>correct := Some False\<rparr>) rs)"

text \<open>
  \<open>unknownIntent\<close> and \<open>valueIntent\<close> call each other: \<open>unknownIntent\<close> hands a
  fuzzy or partial match to \<open>valueIntent\<close>, and \<open>valueIntent\<close> hands an answer that
  is not valid to \<open>unknownIntent\<close> with \<open>otherIntentTriggered\<close> set.
\<close>

function unknownIntent :: "session \<Rightarrow> request \<Rightarrow> bool \<Rightarrow> real list \<Rightarrow> outcome"
  and valueIntent :: "session \<Rightarrow> request \<Rightarrow> jsval \<Rightarrow> real list \<Rightarrow> outcome" where
  "unknownIntent s req otherIntentTriggered rs =
     (let fallbackCount' = (case fallbackCount s of None \<Rightarrow> 0 | Some n \<Rightarrow> n) + 1;
          s1 = s\<lparr>fallbackCount := Some fallbackCount'\<rparr>;
          matched =
            (if \<not> otherIntentTriggered then
               (case selectedAnswers s1 of
                  None \<Rightarrow> None
                | Some answers \<Rightarrow> matchAnswers answers (trim (rawInput req)))
             else None)
      in case matched of
           Some i \<Rightarrow> valueIntent s1 req (Num (int i + 1)) rs
         | None \<Rightarrow>
             if inDictionary req then handleDictionaryInput s1 rs
             else handleNonDictionaryInput s1 fallbackCount' rs)"
| "valueIntent s req choice rs =
     (case selectedAnswers s of
        None \<Rightarrow> Some (Inl TypeError)
      | Some answers \<Rightarrow>
          (let number0 =
                 (if \<not> truthy choice then
                    (case firstAnswer (\<lambda>synonym. compareStrings (Str synonym) (Str (rawInput req)) = Inr True)
                            0 answers of
                       None \<Rightarrow> Undefined
                     | Some i \<Rightarrow> Num (int i + 1))
                  else Undefined);
               number1 = (if \<not> truthy number0 then argNumber req else number0);
               number2 = (if \<not> truthy number1 then argAny req else number1);
               number3 = (if \<not> truthy number2 then argOrdinal req else number2);
               number4 = (if \<not> truthy number3 \<and> lastFlag req
                          then Str (natToString (length answers)) else number3);
               number5 = (if \<not> truthy number4 \<and> middleFlag req
                          then Str (natToString (length answers div 2 + 1)) else number4);
               number = (if \<not> truthy number5 then choice else number5)
           in if isValidAnswer number answers then
                nextQuestion
                  (if Some (correctAnswer s + 1) = parseInt number
                   then s\<lparr>score := score s + 1, correct := Some True\<rparr>
                   else s\<lparr>correct := Some False\<rparr>) rs
              else unknownIntent s req True rs))"
  by pat_completeness auto
termination
  by (relation "measure (\<lambda>x. case x of
          Inl (s, req, otherIntentTriggered, rs) \<Rightarrow> if otherIntentTriggered then 0 else 2
        | Inr c \<Rightarrow> 1)")
     (auto split: if_splits)

declare unknownIntent.simps [simp del] valueIntent.simps [simp del]

text \<open>
  A conversation: the turns, each handled by \<open>unknownIntent\<close> as the fallback intent
  delivers it, until a handler fails or the turns are used up. The result lists the
  responses and the \<open>fallbackCount\<close> after each turn.
\<close>

fun fallbackTurns :: "session \<Rightarrow> request list \<Rightarrow> real list \<Rightarrow> (response \<times> int option) list" where
  "fallbackTurns s [] rs = []"
| "fallbackTurns s (req # reqs) rs =
     (case unknownIntent s req False rs of
        Some (Inr (s', response, rs')) \<Rightarrow> (response, fallbackCount s') # fallbackTurns s' reqs rs'
      | _ \<Rightarrow> [])"

text \<open>
  An unresolved turn: the input matches no selected answer and the dictionary has no
  entry for it.
\<close>

definition unresolved :: "session \<Rightarrow> request \<Rightarrow> bool" where
  "unresolved s req =
     (\<not> inDictionary req \<and>
      (case selectedAnswers s of
         None \<Rightarrow> True
       | Some answers \<Rightarrow> matchAnswers answers (trim (rawInput req)) = None))"

text \<open>
  A session at the last of two questions, with the answers \<open>Paris\<close> (correct) and
  \<open>London\<close> presented, and a request of the fallback intent with the given raw input,
  no arguments and no dictionary entry.
\<close>

definition lastQuestionSession :: session where
  "lastQuestionSession =
     \<lparr>fallbackCount = Some 0, selectedAnswers = Some [Some ''Paris'', Some ''London''],
      correctAnswer = 0, sessionAnswers = [[''Rome'', ''Oslo''], [''Paris'', ''London'']],
      score = 1, currentQuestion = 1, gameLength = 2, correct = Some True\<rparr>"

definition fallbackRequest :: "string \<Rightarrow> request" where
  "fallbackRequest input =
     \<lparr>rawInput = input, argNumber = Null, argAny = Null, argOrdinal = Null,
      lastFlag = False, middleFlag = False, inDictionary = False\<rparr>"

section \<open>Properties of the string comparison\<close>

lemma levenshtein_sym: "levenshtein xs ys = levenshtein ys xs"
proof (induction xs ys rule: levenshtein.induct)
  case (1 ys)
  then show ?case by (cases ys) simp_all
next
  case (2 x xs)
  then show ?case by simp
next
  case (3 x xs y ys)
  then show ?case by (auto simp: min.commute min.left_commute)
qed

text \<open>
  C6: a string whose normal form (lower case, punctuation and spaces removed) has at
  most 3 characters never fuzzy-matches; when both normal forms have 4 characters or
  more, an edit distance of 1 is a match and an edit distance of 2 is not.
\<close>

theorem fuzzyMatch_boundary:
  fixes a b :: string
  defines "na \<equiv> removePunctuationAndSpaces (toLowerCase a)"
      and "nb \<equiv> removePunctuationAndSpaces (toLowerCase b)"
  shows "(length na \<le> 3 \<or> length nb \<le> 3 \<longrightarrow> \<not> fuzzyMatch a b)
       \<and> (4 \<le> length na \<and> 4 \<le> length nb \<and> levenshtein na nb = 1 \<longrightarrow> fuzzyMatch a b)
       \<and> (4 \<le> length na \<and> 4 \<le> length nb \<and> levenshtein na nb = 2 \<longrightarrow> \<not> fuzzyMatch a b)"
  unfolding na_def nb_def fuzzyMatch_def Let_def by auto

theorem fuzzyMatch_boundary_witness:
  "\<not> fuzzyMatch ''Rio'' ''Rio''
   \<and> levenshtein ''paris'' ''pariss'' = 1 \<and> fuzzyMatch ''Paris'' ''pariss!''
   \<and> levenshtein ''paris'' ''parisss'' = 2 \<and> \<not> fuzzyMatch ''Paris'' ''Pa ri sss''"
proof -
  have n1: "removePunctuationAndSpaces (toLowerCase ''Rio'') = ''rio''"
    and n2: "removePunctuationAndSpaces (toLowerCase ''Paris'') = ''paris''"
    and n3: "removePunctuationAndSpaces (toLowerCase ''pariss!'') = ''pariss''"
    and n4: "removePunctuationAndSpaces (toLowerCase ''Pa ri sss'') = ''parisss''"
    by code_simp+
  have d1: "levenshtein ''paris'' ''pariss'' = 1"
    and d2: "levenshtein ''paris'' ''parisss'' = 2"
    by code_simp+
  from fuzzyMatch_boundary [of "''Rio''" "''Rio''"] n1
  have "\<not> fuzzyMatch ''Rio'' ''Rio''" by simp
  moreover from fuzzyMatch_boundary [of "''Paris''" "''pariss!''"] n2 n3 d1
  have "fuzzyMatch ''Paris'' ''pariss!''" by simp
  moreover from fuzzyMatch_boundary [of "''Paris''" "''Pa ri sss''"] n2 n4 d2
  have "\<not> fuzzyMatch ''Paris'' ''Pa ri sss''" by simp
  ultimately show ?thesis using d1 d2 by simp
qed

text \<open>
  C10: \<open>fuzzyMatch\<close> is commutative.
\<close>

theorem fuzzyMatch_commutative: "fuzzyMatch a b = fuzzyMatch b a"
  unfolding fuzzyMatch_def Let_def
  by (subst levenshtein_sym) (rule conj_cong [OF conj_commute refl])

text \<open>
  C9: \<open>compareStrings\<close> is \<open>false\<close> as soon as one argument is \<open>null\<close>,
  \<open>undefined\<close> or the empty string, two empty strings included; on two non-empty
  strings it compares the lower-cased, trimmed strings.
\<close>

theorem compareStrings_falsy_or_equal:
  "(s1 \<in> {Null, Undefined, Str []} \<or> s2 \<in> {Null, Undefined, Str []}
      \<longrightarrow> compareStrings s1 s2 = Inr False)
   \<and> compareStrings (Str []) (Str []) = Inr False
   \<and> (a \<noteq> [] \<and> b \<noteq> []
      \<longrightarrow> compareStrings (Str a) (Str b) = Inr (trim (toLowerCase a) = trim (toLowerCase b)))"
  by (cases s1; cases s2) auto

theorem compareStrings_falsy_or_equal_witness:
  "compareStrings Null (Str ''Paris'') = Inr False
   \<and> compareStrings (Str []) (Str []) = Inr False
   \<and> compareStrings (Str '' PARIS'') (Str ''paris '') = Inr True"
proof -
  have e: "trim (toLowerCase '' PARIS'') = trim (toLowerCase ''paris '')"
    by code_simp
  from compareStrings_falsy_or_equal [of Null "Str ''Paris''" "'' PARIS''" "''paris ''"] e
  show ?thesis by simp
qed

section \<open>Properties of the answer handling\<close>

lemma parseInt_string_Nil: "parseInt_string [] = None"
  by (simp add: parseInt_string_def)

text \<open>
  C7: \<open>isValidAnswer(answer, answers)\<close> holds exactly when \<open>answer\<close> parses as an
  integer \<open>n\<close> with \<open>1 \<le> n\<close> and \<open>n \<le> answers.length\<close>.
\<close>

theorem isValidAnswer_iff:
  "isValidAnswer answer answers
     = (\<exists>n. parseInt answer = Some n \<and> 1 \<le> n \<and> n \<le> int (length answers))"
proof (cases answer)
  case (Str s)
  then show ?thesis
    by (cases "s = []") (auto simp: isValidAnswer_def parseInt_string_Nil split: option.splits)
qed (auto simp: isValidAnswer_def)

subsection \<open>Arrays and random numbers\<close>

lemma indexOf_ge: "indexOf xs x \<ge> -1"
  by (induction xs) (auto simp: Let_def)

lemma indexOf_eq: "indexOf xs x = -1 \<longleftrightarrow> x \<notin> set xs"
proof (induction xs)
  case Nil
  then show ?case by simp
next
  case (Cons y ys)
  have "indexOf ys x + 1 \<noteq> -1" using indexOf_ge [of ys x] by arith
  with Cons show ?case by (auto simp: Let_def)
qed

lemma getRandomNumber_range:
  assumes "0 \<le> u" "u < 1" "0 < n"
  shows "0 \<le> getRandomNumber 0 (int n - 1) u \<and> getRandomNumber 0 (int n - 1) u < int n"
proof -
  have a: "0 \<le> u * real n" using assms by simp
  have b: "u * real n < real n" using assms by simp
  have "\<lfloor>u * real n\<rfloor> < int n" using b by (simp add: floor_less_iff)
  moreover have "0 \<le> \<lfloor>u * real n\<rfloor>" using a by simp
  ultimately show ?thesis by (simp add: getRandomNumber_def)
qed

lemma js_get_in_range: "0 \<le> k \<Longrightarrow> k < int (length xs) \<Longrightarrow> js_get xs k = Some (xs ! nat k)"
  by (simp add: js_get_def)

lemma splice1_in_range: "0 \<le> k \<Longrightarrow> k < int (length xs) \<Longrightarrow> splice1 k xs = remove_nth (nat k) xs"
  by (simp add: splice1_def min_def)

lemma length_remove_nth: "j < length xs \<Longrightarrow> length (remove_nth j xs) = length xs - 1"
  by (simp add: remove_nth_def)

lemma mset_remove_nth: "j < length xs \<Longrightarrow> add_mset (xs ! j) (mset (remove_nth j xs)) = mset xs"
proof -
  assume j: "j < length xs"
  then have "xs = take j xs @ xs ! j # drop (Suc j) xs" by (rule id_take_nth_drop)
  then have "mset xs = mset (take j xs @ xs ! j # drop (Suc j) xs)" by simp
  then show ?thesis by (simp add: remove_nth_def)
qed

subsection \<open>The answer shuffler\<close>

lemma selectAnswers_loop_spec:
  assumes "valid_draws rs" "0 \<le> c" "c < int (length answers)" "i \<le> length answers"
    and "length cloned + (if int i \<le> c then 1 else 0) = length answers - i"
    and "length cloned \<le> length rs"
  shows "\<exists>ext rs'. selectAnswers_loop i c answers cloned selected rs = Some (selected @ ext, rs')
           \<and> length ext = length answers - i
           \<and> mset ext = mset (map Some cloned) + (if int i \<le> c then {#Some (answers ! 0)#} else {#})
           \<and> (int i \<le> c \<longrightarrow> ext ! (nat c - i) = Some (answers ! 0))"
  using assms
proof (induction i c answers cloned selected rs rule: selectAnswers_loop.induct)
  case (1 i c answers cloned selected rs)
  show ?case
  proof (cases "i < length answers")
    case False
    with "1.prems" have "i = length answers" "\<not> int i \<le> c" "cloned = []" by (auto split: if_splits)
    then show ?thesis by (subst selectAnswers_loop.simps) simp
  next
    case lt: True
    then have a0: "js_get answers 0 = Some (answers ! 0)" by (cases answers) (simp_all add: js_get_def)
    show ?thesis
    proof (cases "int i = c")
      case True
      from "1.prems" True lt have len: "length cloned + (if int (i + 1) \<le> c then 1 else 0) = length answers - (i + 1)"
        by simp
      from "1.IH"(1) [OF lt True "1.prems"(1-3) _ len "1.prems"(6)] lt
      obtain ext rs' where
        r: "selectAnswers_loop (i + 1) c answers cloned (selected @ [js_get answers 0]) rs
              = Some ((selected @ [js_get answers 0]) @ ext, rs')"
        and l: "length ext = length answers - (i + 1)"
        and m: "mset ext = mset (map Some cloned) + (if int (i + 1) \<le> c then {#Some (answers ! 0)#} else {#})"
        by auto
      have "selectAnswers_loop i c answers cloned selected rs = Some (selected @ (Some (answers ! 0) # ext), rs')"
        using r lt True a0 by (subst selectAnswers_loop.simps) simp
      moreover have "length (Some (answers ! 0) # ext) = length answers - i" using l lt by simp
      moreover have "mset (Some (answers ! 0) # ext) = mset (map Some cloned) + (if int i \<le> c then {#Some (answers ! 0)#} else {#})"
        using m True by simp
      moreover have "(Some (answers ! 0) # ext) ! (nat c - i) = Some (answers ! 0)" using True by auto
      ultimately show ?thesis by blast
    next
      case False
      with "1.prems" lt have ne: "cloned \<noteq> []" by (auto split: if_splits)
      with "1.prems" obtain u rs' where rs: "rs = u # rs'" by (cases rs) auto
      define index where "index = getRandomNumber 0 (int (length cloned) - 1) u"
      from "1.prems"(1) rs have u: "0 \<le> u" "u < 1" and v': "valid_draws rs'" by (auto simp: valid_draws_def)
      from getRandomNumber_range [OF u, of "length cloned"] ne
      have ir: "0 \<le> index" "index < int (length cloned)" by (auto simp: index_def)
      then have g: "js_get cloned index = Some (cloned ! nat index)"
        and s: "splice1 index cloned = remove_nth (nat index) cloned"
        by (simp_all add: js_get_in_range splice1_in_range)
      from ir have j: "nat index < length cloned" by simp
      have len: "length (splice1 index cloned) + (if int (i + 1) \<le> c then 1 else 0) = length answers - (i + 1)"
        using "1.prems"(5) False lt ne by (auto simp: s length_remove_nth [OF j] split: if_splits)
      have lr: "length (splice1 index cloned) \<le> length rs'"
        using "1.prems"(6) rs ne by (simp add: s length_remove_nth [OF j])
      from "1.IH"(2) [OF lt False rs index_def v' "1.prems"(2,3) _ len lr] lt
      obtain ext rs'' where
        r: "selectAnswers_loop (i + 1) c answers (splice1 index cloned) (selected @ [js_get cloned index]) rs'
              = Some ((selected @ [js_get cloned index]) @ ext, rs'')"
        and l: "length ext = length answers - (i + 1)"
        and m: "mset ext = mset (map Some (splice1 index cloned)) + (if int (i + 1) \<le> c then {#Some (answers ! 0)#} else {#})"
        and p: "int (i + 1) \<le> c \<longrightarrow> ext ! (nat c - (i + 1)) = Some (answers ! 0)"
        by auto
      have "selectAnswers_loop i c answers cloned selected rs = Some (selected @ (Some (cloned ! nat index) # ext), rs'')"
        using r lt False rs g by (subst selectAnswers_loop.simps) (simp add: index_def Let_def)
      moreover have "length (Some (cloned ! nat index) # ext) = length answers - i" using l lt by simp
      moreover have "mset (Some (cloned ! nat index) # ext) = mset (map Some cloned) + (if int i \<le> c then {#Some (answers ! 0)#} else {#})"
      proof -
        have "mset (map Some cloned) = add_mset (Some (cloned ! nat index)) (mset (map Some (remove_nth (nat index) cloned)))"
          using mset_remove_nth [OF j] by (metis image_mset_add_mset mset_map)
        with m s False show ?thesis by auto
      qed
      moreover have "int i \<le> c \<longrightarrow> (Some (cloned ! nat index) # ext) ! (nat c - i) = Some (answers ! 0)"
      proof
        assume "int i \<le> c"
        with False have lt': "int (i + 1) \<le> c" by simp
        then have "nat c - i = Suc (nat c - (i + 1))" by simp
        with p lt' show "(Some (cloned ! nat index) # ext) ! (nat c - i) = Some (answers ! 0)" by simp
      qed
      ultimately show ?thesis by blast
    qed
  qed
qed

text \<open>
  C3: for at least two answers and a correct position \<open>c\<close> within the list,
  \<open>selectAnswers\<close> returns a permutation of the answers (the same multiset, so each
  answer once) with the first stored answer at position \<open>c\<close>; a true/false question
  is presented as stored.
\<close>

theorem selectAnswers_permutation:
  "(valid_draws rs \<and> 2 \<le> length answers \<and> 0 \<le> c \<and> c < int (length answers)
      \<and> length answers - 1 \<le> length rs
      \<longrightarrow> (\<exists>sel rs'. selectAnswers c answers rs = Some (Some sel, rs')
             \<and> mset sel = mset (map Some answers) \<and> length sel = length answers
             \<and> sel ! nat c = Some (answers ! 0)))
   \<and> (isTrueFalseQuestion tf \<longrightarrow> presentAnswers tf rs2 = Some (0, Some (map Some tf), rs2))"
proof (intro conjI impI)
  assume a: "valid_draws rs \<and> 2 \<le> length answers \<and> 0 \<le> c \<and> c < int (length answers)
      \<and> length answers - 1 \<le> length rs"
  then obtain x xs where ans: "answers = x # xs" by (cases answers) auto
  from a have "\<exists>ext rs'. selectAnswers_loop 0 c answers (drop 1 answers) [] rs = Some ([] @ ext, rs')
           \<and> length ext = length answers - 0
           \<and> mset ext = mset (map Some (drop 1 answers)) + (if int 0 \<le> c then {#Some (answers ! 0)#} else {#})
           \<and> (int 0 \<le> c \<longrightarrow> ext ! (nat c - 0) = Some (answers ! 0))"
    by (intro selectAnswers_loop_spec) auto
  then obtain ext rs' where
    r: "selectAnswers_loop 0 c answers (drop 1 answers) [] rs = Some (ext, rs')"
    and l: "length ext = length answers"
    and m: "mset ext = mset (map Some (drop 1 answers)) + {#Some (answers ! 0)#}"
    and p: "ext ! nat c = Some (answers ! 0)"
    using a by auto
  from m ans have "mset ext = mset (map Some answers)" by simp
  with r l p a show "\<exists>sel rs'. selectAnswers c answers rs = Some (Some sel, rs')
             \<and> mset sel = mset (map Some answers) \<and> length sel = length answers
             \<and> sel ! nat c = Some (answers ! 0)"
    by (simp add: selectAnswers_def)
next
  assume "isTrueFalseQuestion tf"
  then show "presentAnswers tf rs2 = Some (0, Some (map Some tf), rs2)"
    by (simp add: presentAnswers_def)
qed

theorem selectAnswers_permutation_witness:
  "(\<exists>sel rs'. selectAnswers 2 [''Paris'', ''London'', ''Berlin'', ''Madrid''] [1/2, 0, 9/10] = Some (Some sel, rs')
       \<and> mset sel = mset (map Some [''Paris'', ''London'', ''Berlin'', ''Madrid''])
       \<and> length sel = length [''Paris'', ''London'', ''Berlin'', ''Madrid'']
       \<and> sel ! 2 = Some ''Paris'')
   \<and> presentAnswers [''False'', ''True''] [1/2] = Some (0, Some [Some ''False'', Some ''True''], [1/2])"
proof -
  have h1: "valid_draws [1/2, 0, 9/10]" by (simp add: valid_draws_def)
  have h2: "isTrueFalseQuestion [''False'', ''True'']" by code_simp
  from selectAnswers_permutation [of "[1/2, 0, 9/10]" "[''Paris'', ''London'', ''Berlin'', ''Madrid'']" 2
      "[''False'', ''True'']" "[1/2]"] h1 h2
  show ?thesis by simp
qed

subsection \<open>The question selector\<close>

lemma valid_draws_Cons: "valid_draws (u # rs) = (0 \<le> u \<and> u < 1 \<and> valid_draws rs)"
  by (auto simp: valid_draws_def)

lemma valid_draws_append: "valid_draws (xs @ ys) = (valid_draws xs \<and> valid_draws ys)"
  by (auto simp: valid_draws_def)

lemma drawnIndex_range: "0 \<le> u \<Longrightarrow> u < 1 \<Longrightarrow> 0 < n \<Longrightarrow> drawnIndex n u \<in> {0..<int n}"
  using getRandomNumber_range [of u n] by (simp add: drawnIndex_def)

lemma search_full:
  "length checked = n \<Longrightarrow> search n selected prev checked rs = Some (False, selected, checked, rs)"
  by (cases rs) simp_all

lemma full_checked:
  assumes "distinct checked" "set checked \<subseteq> {0..<int n}" "{0..<int n} \<subseteq> set checked"
  shows "length checked = n"
proof -
  from assms have "set checked = {0..<int n}" by auto
  then have "card (set checked) = n" by simp
  with assms(1) show ?thesis by (simp add: distinct_card)
qed

text \<open>What one run of the inner loop leaves behind.\<close>

lemma search_spec:
  assumes "valid_draws rs" "distinct checked" "set checked \<subseteq> {0..<int n}"
    and "search n selected prev checked rs = Some (found, selected', checked', rs')"
  shows "distinct checked' \<and> set checked' \<subseteq> {0..<int n} \<and> set checked \<subseteq> set checked'
       \<and> valid_draws rs' \<and> (\<exists>pre. rs = pre @ rs')
       \<and> (\<forall>x \<in> set checked' - set checked. Some x \<in> set selected \<or> x \<in> set prev)
       \<and> (found \<longrightarrow> length checked \<noteq> n \<and> (\<exists>index. selected' = selected @ [Some index] \<and> 0 \<le> index
                      \<and> index < int n \<and> Some index \<notin> set selected \<and> index \<notin> set prev))
       \<and> (\<not> found \<longrightarrow> selected' = selected \<and> length checked' = n)"
  using assms
proof (induction rs arbitrary: checked)
  case Nil
  then show ?case by (auto split: if_splits)
next
  case (Cons u rs)
  show ?case
  proof (cases "length checked = n")
    case True
    with Cons.prems show ?thesis by auto
  next
    case False
    from Cons.prems(1) have u: "0 \<le> u" "u < 1" and v: "valid_draws rs" by (simp_all add: valid_draws_Cons)
    from False Cons.prems(2,3) have "0 < n" by (cases n) auto
    define index where "index = getRandomNumber 0 (int n - 1) u"
    from getRandomNumber_range [OF u \<open>0 < n\<close>] have ir: "0 \<le> index" "index < int n" by (simp_all add: index_def)
    show ?thesis
    proof (cases "Some index \<notin> set selected \<and> index \<notin> set prev")
      case True
      with Cons.prems False ir v have "found" "selected' = selected @ [Some index]" "checked' = checked" "rs' = rs"
        by (auto simp: index_def [symmetric] indexOf_eq Let_def)
      with Cons.prems(2,3) True False ir v show ?thesis by auto
    next
      case acc: False
      define chk where "chk = (if indexOf checked index = -1 then checked @ [index] else checked)"
      have c1: "distinct chk" "set chk \<subseteq> {0..<int n}" "set chk = insert index (set checked)"
        using Cons.prems(2,3) ir by (auto simp: chk_def indexOf_eq)
      from Cons.prems(4) False acc
      have s: "search n selected prev chk rs = Some (found, selected', checked', rs')"
        by (auto simp: index_def [symmetric] chk_def indexOf_eq Let_def split: if_splits)
      from Cons.IH [OF v c1(1,2) s] c1(3) acc False show ?thesis
        by (auto simp: Cons_eq_append_conv)
    qed
  qed
qed


text \<open>The inner loop ends once every index has been drawn or was checked before.\<close>

lemma search_terminates:
  assumes "valid_draws blk" "distinct checked" "set checked \<subseteq> {0..<int n}"
    and "{0..<int n} \<subseteq> set checked \<union> drawnIndex n ` set blk"
  shows "\<exists>found selected' checked' suf. search n selected prev checked (blk @ rest)
            = Some (found, selected', checked', suf @ rest)"
  using assms
proof (induction blk arbitrary: checked)
  case Nil
  then have "length checked = n" by (intro full_checked) auto
  then have "search n selected prev checked ([] @ rest) = Some (False, selected, checked, [] @ rest)"
    by (rule search_full)
  then show ?case by blast
next
  case (Cons u blk)
  show ?case
  proof (cases "length checked = n")
    case True
    then have "search n selected prev checked ((u # blk) @ rest) = Some (False, selected, checked, (u # blk) @ rest)"
      by (rule search_full)
    then show ?thesis by blast
  next
    case False
    from Cons.prems(1) have u: "0 \<le> u" "u < 1" and v: "valid_draws blk" by (simp_all add: valid_draws_Cons)
    from False Cons.prems(2,3) have "0 < n" by (cases n) auto
    define index where "index = getRandomNumber 0 (int n - 1) u"
    from getRandomNumber_range [OF u \<open>0 < n\<close>] have ir: "0 \<le> index" "index < int n" by (simp_all add: index_def)
    show ?thesis
    proof (cases "Some index \<notin> set selected \<and> index \<notin> set prev")
      case True
      with False have "search n selected prev checked ((u # blk) @ rest)
           = Some (True, selected @ [Some index], checked, blk @ rest)"
        by (simp add: index_def [symmetric] indexOf_eq)
      then show ?thesis by blast
    next
      case acc: False
      define chk where "chk = (if indexOf checked index = -1 then checked @ [index] else checked)"
      have c1: "distinct chk" "set chk \<subseteq> {0..<int n}" "set chk = insert index (set checked)"
        using Cons.prems(2,3) ir by (auto simp: chk_def indexOf_eq)
      have c2: "{0..<int n} \<subseteq> set chk \<union> drawnIndex n ` set blk"
        using Cons.prems(4) c1(3) by (auto simp: drawnIndex_def index_def)
      from Cons.IH [OF v c1(1,2) c2] obtain found selected' checked' suf where
        "search n selected prev chk (blk @ rest) = Some (found, selected', checked', suf @ rest)" by blast
      with False acc have "search n selected prev checked ((u # blk) @ rest)
           = Some (found, selected', checked', suf @ rest)"
        by (auto simp: index_def [symmetric] chk_def indexOf_eq Let_def)
      then show ?thesis by blast
    qed
  qed
qed

lemma covers_prepend: "covers n k rs \<Longrightarrow> covers n k (pre @ rs)"
proof (cases k)
  case 0
  then show ?thesis by (simp add: covers_0)
next
  case (Suc j)
  assume "covers n k rs"
  with Suc obtain blk rest where rs: "rs = blk @ rest" and b: "{0..<int n} \<subseteq> drawnIndex n ` set blk"
    and c: "covers n j rest"
    by (auto elim: covers.cases)
  from b have "{0..<int n} \<subseteq> drawnIndex n ` set (pre @ blk)" by auto
  from covers_Suc [OF this c] rs Suc show ?thesis by simp
qed

text \<open>The outer loop returns when the draws cover the indices once per remaining question.\<close>

lemma selectQuestions_loop_returns:
  assumes "valid_draws rs" "distinct checked" "set checked \<subseteq> {0..<int n}"
    and "covers n (L - i) rs"
  shows "\<exists>res. selectQuestions_loop i L n prev selected checked previousIndex rs = Some res"
  using assms
proof (induction i L n prev selected checked previousIndex rs rule: selectQuestions_loop.induct)
  case (1 i L n prev selected checked previousIndex rs)
  show ?case
  proof (cases "i < L")
    case False
    then show ?thesis by (subst selectQuestions_loop.simps) simp
  next
    case True
    then have "L - i = Suc (L - (i + 1))" by simp
    with "1.prems"(4) obtain blk rest where rs: "rs = blk @ rest"
      and b: "{0..<int n} \<subseteq> drawnIndex n ` set blk" and c: "covers n (L - (i + 1)) rest"
      by (auto elim: covers.cases)
    from "1.prems"(1) rs have vb: "valid_draws blk" by (simp add: valid_draws_append)
    from b have "{0..<int n} \<subseteq> set checked \<union> drawnIndex n ` set blk" by auto
    from search_terminates [OF vb "1.prems"(2,3) this, of selected prev rest] rs
    obtain found selected' checked' suf where
      s: "search n selected prev checked rs = Some (found, selected', checked', suf @ rest)" by auto
    from search_spec [OF "1.prems"(1-3) s]
    have inv: "distinct checked'" "set checked' \<subseteq> {0..<int n}" "valid_draws (suf @ rest)" by auto
    from c have c': "covers n (L - (i + 1)) (suf @ rest)" by (rule covers_prepend)
    show ?thesis
    proof (cases found)
      case f: True
      from "1.IH"(1) [OF True s refl refl refl f inv(3,1,2) c'] s f True
      show ?thesis by (subst selectQuestions_loop.simps) simp
    next
      case f: False
      from "1.IH"(2) [OF True s refl refl refl f inv(3,1,2) c'] s f True
      show ?thesis by (subst selectQuestions_loop.simps) simp
    qed
  qed
qed


lemma js_get_Some_set: "js_get xs k = Some x \<Longrightarrow> x \<in> set xs"
  by (auto simp: js_get_def split: if_splits)

text \<open>
  The shape of the selection: indices found by the search, none of them a previous
  question, followed by reused previous questions; previous questions are reused only
  once every index is selected or a previous question.
\<close>

lemma selectQuestions_loop_inv:
  assumes "valid_draws rs" "i \<le> L"
    and "selected = map Some fs @ map (\<lambda>j. js_get prev (int j)) [0..<previousIndex]"
    and "length fs + previousIndex = i" "distinct fs" "set fs \<inter> set prev = {}"
    and "set fs \<subseteq> {0..<int n}"
    and "previousIndex > 0 \<longrightarrow> length checked = n"
    and "distinct checked" "set checked \<subseteq> {0..<int n}" "set checked \<subseteq> set fs \<union> set prev"
    and "selectQuestions_loop i L n prev selected checked previousIndex rs = Some (sel, rs')"
  shows "\<exists>fs' reused. sel = map Some fs' @ map (\<lambda>j. js_get prev (int j)) [0..<reused]
           \<and> length fs' + reused = L \<and> distinct fs' \<and> set fs' \<inter> set prev = {}
           \<and> set fs' \<subseteq> {0..<int n} \<and> (reused > 0 \<longrightarrow> {0..<int n} \<subseteq> set fs' \<union> set prev)"
  using assms
proof (induction i L n prev selected checked previousIndex rs arbitrary: fs
       rule: selectQuestions_loop.induct)
  case (1 i L n prev selected checked previousIndex rs)
  show ?case
  proof (cases "i < L")
    case False
    with "1.prems"(2) have ig: "i = L" by simp
    with "1.prems"(12) have "sel = selected" by (subst (asm) selectQuestions_loop.simps) simp
    moreover have "previousIndex > 0 \<longrightarrow> {0..<int n} \<subseteq> set fs \<union> set prev"
    proof
      assume "previousIndex > 0"
      with "1.prems"(8) have "length checked = n" by simp
      with "1.prems"(9,10) have "set checked = {0..<int n}"
        by (metis card_atLeastLessThan_int card_subset_eq diff_zero distinct_card finite_atLeastLessThan_int nat_int)
      with "1.prems"(11) show "{0..<int n} \<subseteq> set fs \<union> set prev" by simp
    qed
    ultimately show ?thesis using "1.prems"(3-7) ig by blast
  next
    case True
    from "1.prems"(12) True obtain found selected' checked' rs1 where
      s: "search n selected prev checked rs = Some (found, selected', checked', rs1)"
      by (subst (asm) selectQuestions_loop.simps) (auto split: option.splits)
    note sp = search_spec [OF "1.prems"(1,9,10) s]
    from sp have inv: "distinct checked'" "set checked' \<subseteq> {0..<int n}" "valid_draws rs1" by auto
    have sel_in: "x \<in> set fs \<or> x \<in> set prev" if "Some x \<in> set selected" for x
      using that "1.prems"(3) by (auto dest: js_get_Some_set [OF sym])
    from sp have "\<forall>x \<in> set checked' - set checked. Some x \<in> set selected \<or> x \<in> set prev" by blast
    with sel_in "1.prems"(11) have sub: "set checked' \<subseteq> set fs \<union> set prev" by blast
    show ?thesis
    proof (cases found)
      case f: True
      with sp obtain index where ix: "selected' = selected @ [Some index]" "0 \<le> index" "index < int n"
        "Some index \<notin> set selected" "index \<notin> set prev" and nf: "length checked \<noteq> n" by auto
      from nf "1.prems"(8) have p0: "previousIndex = 0" by auto
      with "1.prems"(3) have sf: "selected = map Some fs" by simp
      from "1.prems"(12) True s f
      have r: "selectQuestions_loop (i + 1) L n prev selected' checked' previousIndex rs1 = Some (sel, rs')"
        by (subst (asm) selectQuestions_loop.simps) simp
      have a3: "selected' = map Some (fs @ [index]) @ map (\<lambda>j. js_get prev (int j)) [0..<previousIndex]"
        using ix(1) sf p0 by simp
      have a4: "length (fs @ [index]) + previousIndex = i + 1" using "1.prems"(4) by simp
      have a5: "distinct (fs @ [index])" using "1.prems"(5) ix(4) sf by auto
      have a6: "set (fs @ [index]) \<inter> set prev = {}" using "1.prems"(6) ix(5) by auto
      have a7: "set (fs @ [index]) \<subseteq> {0..<int n}" using "1.prems"(7) ix(2,3) by auto
      have a8: "previousIndex > 0 \<longrightarrow> length checked' = n" using p0 by simp
      have a11: "set checked' \<subseteq> set (fs @ [index]) \<union> set prev" using sub by auto
      from True have a2: "i + 1 \<le> L" by simp
      from "1.IH"(1) [OF True s refl refl refl f inv(3) a2 a3 a4 a5 a6 a7 a8 inv(1,2) a11 r]
      show ?thesis .
    next
      case f: False
      with sp have e: "selected' = selected" and full: "length checked' = n" by auto
      from "1.prems"(12) True s f e
      have r: "selectQuestions_loop (i + 1) L n prev
                 (selected' @ [js_get prev (int previousIndex)]) checked' (previousIndex + 1) rs1 = Some (sel, rs')"
        by (subst (asm) selectQuestions_loop.simps) simp
      have a3: "selected' @ [js_get prev (int previousIndex)]
                  = map Some fs @ map (\<lambda>j. js_get prev (int j)) [0..<previousIndex + 1]"
        using e "1.prems"(3) by simp
      have a4: "length fs + (previousIndex + 1) = i + 1" using "1.prems"(4) by simp
      have a8: "previousIndex + 1 > 0 \<longrightarrow> length checked' = n" using full by simp
      from True have a2: "i + 1 \<le> L" by simp
      from "1.IH"(2) [OF True s refl refl refl f inv(3) a2 a3 a4 "1.prems"(5,6,7) a8 inv(1,2) sub r]
      show ?thesis .
    qed
  qed
qed

lemma js_get_upto: "reused \<le> length xs \<Longrightarrow> map (\<lambda>j. js_get xs (int j)) [0..<reused] = map Some (take reused xs)"
  by (rule nth_equalityI) (simp_all add: js_get_def)

lemma reused_within:
  assumes "{0..<int n} \<subseteq> set fs \<union> set P" "length fs + reused \<le> n"
  shows "reused \<le> length P"
proof -
  have "n = card {0..<int n}" by simp
  also have "\<dots> \<le> card (set fs \<union> set P)" using assms(1) by (intro card_mono) auto
  also have "\<dots> \<le> card (set fs) + card (set P)" by (rule card_Un_le)
  also have "\<dots> \<le> length fs + length P" by (intro add_mono card_length)
  finally show ?thesis using assms(2) by simp
qed

text \<open>
  C4, as the code has it. Let \<open>G = min(L, N)\<close> and let \<open>P\<close> be the history after
  trimming. Whenever \<open>selectQuestions\<close> returns (it does for every sequence of draws
  that covers the \<open>N\<close> indices \<open>G\<close> times in a row), it returns exactly \<open>G\<close> entries,
  each an index below \<open>N\<close> or an entry of \<open>P\<close>; they are free of duplicates when
  \<open>P\<close> is; and when at least \<open>G\<close> of the \<open>N\<close> indices are not in \<open>P\<close>, they are
  distinct indices below \<open>N\<close>, none of them in \<open>P\<close>. In every case the selection is
  a list of distinct new indices (below \<open>N\<close>, not in \<open>P\<close>) followed by the oldest
  entries of \<open>P\<close>, in their order; entries of \<open>P\<close> are reused only when every index
  that is not in \<open>P\<close> has been selected, so that on a shortfall (fewer than \<open>G\<close>
  indices outside \<open>P\<close>) the new indices are exactly those outside \<open>P\<close> and the
  number of reused entries is the shortfall.
\<close>

theorem selectQuestions_result:
  fixes questions :: "'q list" and L :: nat and previousQuestions :: "int list"
  defines "n \<equiv> length questions"
  defines "G \<equiv> min L n"
  defines "P \<equiv> trimPreviousQuestions n G previousQuestions"
  assumes v: "valid_draws rs"
  shows "(covers n G rs \<longrightarrow> selectQuestions questions L previousQuestions rs \<noteq> None)
       \<and> (\<forall>selected hist g rs'.
             selectQuestions questions L previousQuestions rs = Some (selected, hist, g, rs')
             \<longrightarrow> length selected = G
               \<and> (\<forall>x \<in> set selected. \<exists>k. x = Some k \<and> (k \<in> {0..<int n} \<or> k \<in> set P))
               \<and> (distinct P \<longrightarrow> distinct selected)
               \<and> (G \<le> card ({0..<int n} - set P)
                    \<longrightarrow> distinct selected
                      \<and> (\<forall>x \<in> set selected. \<exists>k. x = Some k \<and> 0 \<le> k \<and> k < int n \<and> k \<notin> set P))
               \<and> (\<exists>fresh reused.
                     selected = map Some (fresh @ take reused P)
                     \<and> length fresh + reused = G \<and> reused \<le> length P
                     \<and> distinct fresh \<and> set fresh \<subseteq> {0..<int n} - set P
                     \<and> (reused > 0 \<longrightarrow> set fresh = {0..<int n} - set P)
                     \<and> (card ({0..<int n} - set P) < G
                          \<longrightarrow> reused = G - card ({0..<int n} - set P))))"
proof (intro conjI allI impI)
  have nn: "length questions = n" by (simp add: n_def)
  have G: "(if L > n then n else L) = G" by (simp add: G_def min_def)
  have P: "trimPreviousQuestions n G previousQuestions = P" by (simp add: P_def)
  have unf: "selectQuestions questions L previousQuestions rs
      = (case selectQuestions_loop 0 G n P [] [] 0 rs of
           None \<Rightarrow> None
         | Some (selected, rs') \<Rightarrow> Some (selected, map Some P @ selected, G, rs'))"
    by (simp only: selectQuestions_def Let_def nn G P)
  {
    assume "covers n G rs"
    then have "covers n (G - 0) rs" by simp
    from selectQuestions_loop_returns [OF v _ _ this, of "[]" P "[]" 0]
    obtain res where "selectQuestions_loop 0 G n P [] [] 0 rs = Some res" by auto
    then show "selectQuestions questions L previousQuestions rs \<noteq> None"
      by (cases res) (simp add: unf)
  }
  fix selected hist g rs'
  assume r: "selectQuestions questions L previousQuestions rs = Some (selected, hist, g, rs')"
  then have l: "selectQuestions_loop 0 G n P [] [] 0 rs = Some (selected, rs')"
    by (auto simp: unf split: option.splits)
  from selectQuestions_loop_inv [OF v _ _ _ _ _ _ _ _ _ _ l, of "[]"]
  obtain fs reused where sel: "selected = map Some fs @ map (\<lambda>j. js_get P (int j)) [0..<reused]"
    and len: "length fs + reused = G" and d: "distinct fs" and dj: "set fs \<inter> set P = {}"
    and rg: "set fs \<subseteq> {0..<int n}" and full: "reused > 0 \<longrightarrow> {0..<int n} \<subseteq> set fs \<union> set P"
    by auto
  show "length selected = G" using sel len by simp
  have pl: "reused \<le> length P"
  proof (cases "reused > 0")
    case True
    with full have "{0..<int n} \<subseteq> set fs \<union> set P" by simp
    moreover have "length fs + reused \<le> n" using len by (simp add: G_def)
    ultimately show ?thesis by (rule reused_within)
  qed simp
  then have sel': "selected = map Some (fs @ take reused P)" using sel by (simp add: js_get_upto)
  show "\<forall>x \<in> set selected. \<exists>k. x = Some k \<and> (k \<in> {0..<int n} \<or> k \<in> set P)"
    unfolding sel' using rg by (auto dest: in_set_takeD)
  {
    assume "distinct P"
    then have "distinct (take reused P)" by simp
    moreover have "set fs \<inter> set (take reused P) = {}" using dj by (auto dest: in_set_takeD)
    ultimately have "distinct (fs @ take reused P)" using d by simp
    then show "distinct selected" unfolding sel' by (simp add: distinct_map del: map_append)
  }
  {
    assume c: "G \<le> card ({0..<int n} - set P)"
    have p0: "reused = 0"
    proof (rule ccontr)
      assume "reused \<noteq> 0"
      with full have "{0..<int n} - set P \<subseteq> set fs" by auto
      then have "card ({0..<int n} - set P) \<le> card (set fs)" by (intro card_mono) auto
      also have "\<dots> \<le> length fs" by (rule card_length)
      finally show False using c len \<open>reused \<noteq> 0\<close> by simp
    qed
    with sel' have s: "selected = map Some fs" by simp
    then show "distinct selected" using d by (simp add: distinct_map)
    show "\<forall>x \<in> set selected. \<exists>k. x = Some k \<and> 0 \<le> k \<and> k < int n \<and> k \<notin> set P"
      using s rg dj by auto
  }
  have sub: "set fs \<subseteq> {0..<int n} - set P" using rg dj by auto
  have ex: "reused > 0 \<longrightarrow> set fs = {0..<int n} - set P" using full sub by auto
  have sf: "card ({0..<int n} - set P) < G \<longrightarrow> reused = G - card ({0..<int n} - set P)"
  proof
    assume c: "card ({0..<int n} - set P) < G"
    have "length fs = card (set fs)" using d by (simp add: distinct_card)
    also have "\<dots> \<le> card ({0..<int n} - set P)" using sub by (intro card_mono) auto
    finally have "length fs < G" using c by simp
    with len have "reused > 0" by simp
    with ex have "set fs = {0..<int n} - set P" by simp
    then have "length fs = card ({0..<int n} - set P)" using d by (simp add: distinct_card [symmetric])
    with len show "reused = G - card ({0..<int n} - set P)" by simp
  qed
  show "\<exists>fresh reused.
          selected = map Some (fresh @ take reused P)
          \<and> length fresh + reused = G \<and> reused \<le> length P
          \<and> distinct fresh \<and> set fresh \<subseteq> {0..<int n} - set P
          \<and> (reused > 0 \<longrightarrow> set fresh = {0..<int n} - set P)
          \<and> (card ({0..<int n} - set P) < G \<longrightarrow> reused = G - card ({0..<int n} - set P))"
    using sel' len pl d sub ex sf by blast
qed

text \<open>
  C5, as the code has it. Each iteration of the inner loop draws a random index; the
  loop ends when the index is acceptable or when \<open>checked\<close> holds all \<open>N\<close>
  indices, so it has ended once the draws have covered every index not yet checked,
  and \<open>checked\<close> never holds more than \<open>N\<close> indices. The number of iterations is
  the number of draws this takes, which \<open>N\<close> does not bound. The whole selection
  ends on draws that cover the indices once per question still to select.
\<close>

theorem selection_loop_terminates:
  assumes "valid_draws rs" "distinct checked" "set checked \<subseteq> {0..<int n}"
  shows "({0..<int n} \<subseteq> set checked \<union> drawnIndex n ` set rs
           \<longrightarrow> (\<exists>found selected' checked' rs'.
                 search n selected prev checked rs = Some (found, selected', checked', rs')
                 \<and> length checked' \<le> n \<and> length rs' \<le> length rs))
       \<and> (covers n (L - i) rs
           \<longrightarrow> selectQuestions_loop i L n prev selected checked previousIndex rs \<noteq> None)"
proof (intro conjI impI)
  assume "{0..<int n} \<subseteq> set checked \<union> drawnIndex n ` set rs"
  from search_terminates [OF assms this, of selected prev "[]"]
  obtain found selected' checked' suf where
    s: "search n selected prev checked rs = Some (found, selected', checked', suf)" by auto
  from search_spec [OF assms s] have "distinct checked'" "set checked' \<subseteq> {0..<int n}" "\<exists>pre. rs = pre @ suf"
    by auto
  then have "length checked' \<le> n" "length suf \<le> length rs"
    using card_mono [of "{0..<int n}" "set checked'"] by (auto simp: distinct_card)
  with s show "\<exists>found selected' checked' rs'.
                 search n selected prev checked rs = Some (found, selected', checked', rs')
                 \<and> length checked' \<le> n \<and> length rs' \<le> length rs" by blast
next
  assume "covers n (L - i) rs"
  from selectQuestions_loop_returns [OF assms this]
  show "selectQuestions_loop i L n prev selected checked previousIndex rs \<noteq> None" by auto
qed

lemma sweep_covers: "{0..<int 5} \<subseteq> drawnIndex 5 ` set [0, 1/5, 2/5, 3/5, 4/5]"
proof -
  have "{0..<int 5} = {0, 1, 2, 3, 4}" by auto
  then show ?thesis by (simp add: drawnIndex_def getRandomNumber_def)
qed

theorem selectQuestions_result_witness:
  "(selectQuestions [''q0'', ''q1'', ''q2'', ''q3'', ''q4''] 4 [2]
      ([0, 1/5, 2/5, 3/5, 4/5] @ [0, 1/5, 2/5, 3/5, 4/5] @ [0, 1/5, 2/5, 3/5, 4/5] @ [0, 1/5, 2/5, 3/5, 4/5] @ []) \<noteq> None
   \<and> (\<exists>selected hist g rs'.
        selectQuestions [''q0'', ''q1'', ''q2'', ''q3'', ''q4''] 4 [2]
          ([0, 1/5, 2/5, 3/5, 4/5] @ [0, 1/5, 2/5, 3/5, 4/5] @ [0, 1/5, 2/5, 3/5, 4/5] @ [0, 1/5, 2/5, 3/5, 4/5] @ [])
          = Some (selected, hist, g, rs')
        \<and> length selected = 4 \<and> distinct selected \<and> Some 2 \<notin> set selected))
   \<and> (\<exists>selected hist g rs' fresh.
        selectQuestions [''q0'', ''q1'', ''q2'', ''q3'', ''q4''] 4 [0, 1, 2, 3]
          [9/10, 0, 3/10, 5/10, 7/10, 9/10] = Some (selected, hist, g, rs')
        \<and> selected = map Some (fresh @ take 3 [0, 1, 2, 3]) \<and> set fresh = {4})"
  (is "?enough \<and> ?shortfall")
proof -
  define qs where "qs = [''q0'', ''q1'', ''q2'', ''q3'', ''q4'']"
  define blk :: "real list" where "blk = [0, 1/5, 2/5, 3/5, 4/5]"
  define rs where "rs = blk @ blk @ blk @ blk @ []"
  have n: "length qs = 5" by (simp add: qs_def)
  have a: ?enough
  proof -
    have v: "valid_draws rs" by (simp add: rs_def blk_def valid_draws_def)
    have "covers 5 (Suc (Suc (Suc (Suc 0)))) rs"
      unfolding rs_def by (intro covers_Suc covers_0) (simp_all only: blk_def sweep_covers)
    then have c: "covers (length qs) (min 4 (length qs)) rs" by (simp add: n eval_nat_numeral)
    have P: "trimPreviousQuestions (length qs) (min 4 (length qs)) [2] = [2]"
      by (simp add: n trimPreviousQuestions_def MAX_PREVIOUS_QUESTIONS_def)
    have P5: "trimPreviousQuestions 5 4 [2] = [2]"
      by (simp add: trimPreviousQuestions_def MAX_PREVIOUS_QUESTIONS_def)
    have "{0..<int 5} - {2} = {0, 1, 3, 4}" by auto
    then have k: "min 4 (length qs) \<le> card ({0..<int (length qs)} - set (trimPreviousQuestions (length qs) (min 4 (length qs)) [2]))"
      by (simp add: P5 n)
    have e: "selectQuestions qs 4 [2] rs
               = Some ([Some 0, Some 1, Some 3, Some 4], [Some 2, Some 0, Some 1, Some 3, Some 4], 4,
                       [0, 1/5, 2/5, 3/5, 4/5, 0, 1/5, 2/5, 3/5, 4/5, 0, 1/5, 2/5, 3/5, 4/5])"
      unfolding qs_def rs_def blk_def by code_simp
    note t = selectQuestions_result [OF v, of qs 4 "[2]"]
    from t c have "selectQuestions qs 4 [2] rs \<noteq> None" by blast
    moreover from t e k have "length [Some 0, Some 1, Some 3, Some (4::int)] = min 4 (length qs)
        \<and> distinct [Some 0, Some 1, Some 3, Some (4::int)]
        \<and> (\<forall>x \<in> set [Some 0, Some 1, Some 3, Some (4::int)]. \<exists>k. x = Some k \<and> 0 \<le> k \<and> k < int (length qs) \<and> k \<notin> set [2])"
      unfolding P by blast
    ultimately show ?thesis using e unfolding qs_def rs_def blk_def by simp
  qed
  have b: ?shortfall
  proof -
    have v2: "valid_draws [9/10, 0, 3/10, 5/10, 7/10, 9/10]" by (simp add: valid_draws_def)
    have P2: "trimPreviousQuestions (length qs) (min 4 (length qs)) [0, 1, 2, 3] = [0, 1, 2, 3]"
      by (simp add: n trimPreviousQuestions_def MAX_PREVIOUS_QUESTIONS_def)
    have f: "{0..<int (length qs)} - set [0, 1, 2, 3] = {4}" unfolding n by auto
    have e2: "selectQuestions qs 4 [0, 1, 2, 3] [9/10, 0, 3/10, 5/10, 7/10, 9/10]
                 = Some ([Some 4, Some 0, Some 1, Some 2],
                         [Some 0, Some 1, Some 2, Some 3, Some 4, Some 0, Some 1, Some 2], 4, [])"
      unfolding qs_def by code_simp
    note t = selectQuestions_result [OF v2, of qs 4 "[0, 1, 2, 3]", unfolded P2 f,
        THEN conjunct2, rule_format, OF e2]
    from t have "\<exists>fresh reused.
         [Some 4, Some 0, Some 1, Some (2::int)] = map Some (fresh @ take reused [0, 1, 2, 3])
         \<and> length fresh + reused = min 4 (length qs) \<and> reused \<le> length [0, 1, 2, 3::int]
         \<and> distinct fresh \<and> set fresh \<subseteq> {4}
         \<and> (reused > 0 \<longrightarrow> set fresh = {4})
         \<and> (card {4::int} < min 4 (length qs) \<longrightarrow> reused = min 4 (length qs) - card {4::int})"
      by (elim conjE)
    then obtain fresh reused where
        s: "[Some 4, Some 0, Some 1, Some (2::int)] = map Some (fresh @ take reused [0, 1, 2, 3])"
        and r0: "reused > 0 \<longrightarrow> set fresh = {4}"
        and r: "card {4::int} < min 4 (length qs) \<longrightarrow> reused = min 4 (length qs) - card {4::int}"
      by (elim exE conjE)
    from r have r3: "reused = 3" by (simp add: n)
    with r0 have sf: "set fresh = {4}" by simp
    from s r3 have s3: "[Some 4, Some 0, Some 1, Some (2::int)] = map Some (fresh @ take 3 [0, 1, 2, 3])" by simp
    have "selectQuestions qs 4 [0, 1, 2, 3] [9/10, 0, 3/10, 5/10, 7/10, 9/10]
            = Some ([Some 4, Some 0, Some 1, Some 2],
                    [Some 0, Some 1, Some 2, Some 3, Some 4, Some 0, Some 1, Some 2], 4, [])
          \<and> [Some 4, Some 0, Some 1, Some 2] = map Some (fresh @ take 3 [0, 1, 2, 3])
          \<and> set fresh = {4}"
      using e2 s3 sf by (intro conjI)
    then show ?thesis unfolding qs_def by - ((rule exI)+, assumption)
  qed
  from a b show ?thesis by (rule conjI)
qed

text \<open>
  With 5 questions, a round of 4 and the history \<open>[0, 1, 2, 3]\<close>, only question 4 is
  new: the selection reuses 0, 1 and 2. With the history \<open>[0, 0, 1, 2]\<close> it reuses 0
  twice.
\<close>

theorem selectQuestions_reuses_previous:
  "selectQuestions [''q0'', ''q1'', ''q2'', ''q3'', ''q4''] 4 [0, 1, 2, 3] [9/10, 0, 3/10, 5/10, 7/10, 9/10]
     = Some ([Some 4, Some 0, Some 1, Some 2],
             [Some 0, Some 1, Some 2, Some 3, Some 4, Some 0, Some 1, Some 2], 4, [])
   \<and> (0::int) \<in> set [0, 1, 2, 3] \<and> (4::int) \<notin> set [0, 1, 2, 3]
   \<and> selectQuestions [''q0'', ''q1'', ''q2'', ''q3'', ''q4''] 4 [0, 0, 1, 2] [9/10, 7/10, 0, 3/10, 5/10, 7/10, 9/10]
     = Some ([Some 4, Some 3, Some 0, Some 0],
             [Some 0, Some 0, Some 1, Some 2, Some 4, Some 3, Some 0, Some 0], 4, [])
   \<and> \<not> distinct [Some 4, Some 3, Some 0, Some (0::int)]"
proof -
  have a: "selectQuestions [''q0'', ''q1'', ''q2'', ''q3'', ''q4''] 4 [0, 1, 2, 3] [9/10, 0, 3/10, 5/10, 7/10, 9/10]
     = Some ([Some 4, Some 0, Some 1, Some 2],
             [Some 0, Some 1, Some 2, Some 3, Some 4, Some 0, Some 1, Some 2], 4, [])"
    by code_simp
  have b: "selectQuestions [''q0'', ''q1'', ''q2'', ''q3'', ''q4''] 4 [0, 0, 1, 2] [9/10, 7/10, 0, 3/10, 5/10, 7/10, 9/10]
     = Some ([Some 4, Some 3, Some 0, Some 0],
             [Some 0, Some 0, Some 1, Some 2, Some 4, Some 3, Some 0, Some 0], 4, [])"
    by code_simp
  show ?thesis unfolding a b by simp
qed

theorem selection_loop_terminates_witness:
  "(\<exists>found selected' checked' rs'.
      search 5 [] [0] [] [0, 1/5, 2/5, 3/5, 4/5] = Some (found, selected', checked', rs')
      \<and> length checked' \<le> 5 \<and> length rs' \<le> length [0, 1/5, 2/5, 3/5, 4/5 :: real])
   \<and> selectQuestions_loop 0 1 5 [0] [] [] 0 ([0, 1/5, 2/5, 3/5, 4/5] @ []) \<noteq> None"
proof -
  define blk :: "real list" where "blk = [0, 1/5, 2/5, 3/5, 4/5]"
  have v: "valid_draws blk" by (simp add: blk_def valid_draws_def)
  have c1: "{0..<int 5} \<subseteq> set [] \<union> drawnIndex 5 ` set blk" using sweep_covers by (simp add: blk_def)
  have "covers 5 (Suc 0) (blk @ [])"
    by (intro covers_Suc covers_0) (simp only: blk_def sweep_covers)
  then have c2: "covers 5 (1 - 0) blk" by simp
  from selection_loop_terminates [OF v, of "[]" 5 "[]" "[0]" 1 0 0] c1 c2
  show ?thesis by (simp add: blk_def)
qed

text \<open>
  With 2 questions and question 0 in the history, a source that keeps drawing index 0
  keeps the loop running: it has not ended after 3 iterations, nor after 100.
\<close>

theorem selection_loop_unbounded:
  "search 2 [] [0] [] [0, 0, 0] = None
   \<and> selectQuestions [''q0'', ''q1''] 2 [0] (replicate 100 0) = None"
proof -
  have a: "search 2 [] [0] [] [0, 0, 0] = None" by code_simp
  have b: "selectQuestions [''q0'', ''q1''] 2 [0] (replicate 100 0) = None" by code_simp
  show ?thesis using a b by simp
qed

lemma search_stuck: "search 2 [] [0] [0] (replicate k 0) = None"
  by (induction k) (simp_all add: getRandomNumber_def)

lemma search_never_ends: "search 2 [] [0] [] (replicate k 0) = None"
  by (cases k) (simp_all add: getRandomNumber_def search_stuck)

section \<open>Properties of the synonym groups\<close>

lemma split_not_Nil: "split c s \<noteq> []"
  by (induction s) (auto split: list.splits)

lemma split_no_sep: "w \<in> set (split c s) \<Longrightarrow> c \<notin> set w"
  by (induction s arbitrary: w) (auto split: if_splits list.splits)

lemma split_chars: "w \<in> set (split c s) \<Longrightarrow> set w \<subseteq> set s"
  by (induction s arbitrary: w) (fastforce split: if_splits list.splits)+

lemma split_single: "c \<notin> set s \<Longrightarrow> split c s = [s]"
  by (induction s) auto

lemma set_trim: "set (trim s) \<subseteq> set s"
proof -
  have "set (dropWhile isWhiteSpace (rev (dropWhile isWhiteSpace s))) \<subseteq> set (rev (dropWhile isWhiteSpace s))"
    by (rule set_dropWhileD [THEN subsetI])
  also have "\<dots> \<subseteq> set s" by (auto dest: set_dropWhileD)
  finally show ?thesis by (simp add: trim_def)
qed

lemma wordsOf_words: "w \<in> set (wordsOf v) \<Longrightarrow> SPACE \<notin> set w \<and> set w \<subseteq> set v"
  by (auto simp: wordsOf_def dest: split_no_sep split_chars)

lemma wordsOf_single: "SPACE \<notin> set v \<Longrightarrow> wordsOf v = [v] \<or> wordsOf v = []"
  by (simp add: wordsOf_def split_single)

lemma splice1_indexOf_mem: "x \<in> set xs \<Longrightarrow> splice1 (indexOf xs x) xs = remove1 x xs"
proof (induction xs)
  case Nil
  then show ?case by simp
next
  case (Cons y ys)
  show ?case
  proof (cases "y = x")
    case True
    then show ?thesis by (simp add: splice1_def remove_nth_def)
  next
    case False
    with Cons.prems have m: "x \<in> set ys" by simp
    then have k: "indexOf ys x \<noteq> -1" by (simp add: indexOf_eq)
    with indexOf_ge [of ys x] have k0: "0 \<le> indexOf ys x" by arith
    from Cons.IH [OF m] k0 have "remove_nth (nat (min (indexOf ys x) (int (length ys)))) ys = remove1 x ys"
      by (simp add: splice1_def)
    moreover have "nat (min (indexOf ys x + 1) (1 + int (length ys))) = Suc (nat (min (indexOf ys x) (int (length ys))))"
      using k0 by (simp add: min_def nat_add_distrib)
    ultimately show ?thesis using False k k0
      by (simp add: splice1_def remove_nth_def Let_def)
  qed
qed

lemma splice1_minus1: "splice1 (-1) xs = butlast xs"
  by (cases xs rule: rev_cases) (simp_all add: splice1_def remove_nth_def)

lemma splice1_indexOf_not_mem: "x \<notin> set xs \<Longrightarrow> splice1 (indexOf xs x) xs = butlast xs"
  by (simp add: indexOf_eq [THEN iffD2] splice1_minus1)

lemma join_not_Nil: "g \<noteq> [] \<Longrightarrow> hd g \<noteq> [] \<Longrightarrow> join c g \<noteq> []"
  by (induction c g rule: join.induct) auto

lemma groupOk_remove1:
  assumes "groupOk k g" "r = k \<Longrightarrow> singleWord k"
  shows "groupOk k (remove1 r g)"
proof (cases g)
  case Nil
  with assms show ?thesis by (simp add: groupOk_def)
next
  case (Cons x xs)
  with assms(1) have x: "x = k" by (simp add: groupOk_def)
  show ?thesis
  proof (cases "r = k")
    case True
    with assms Cons x have "xs = []" by (simp add: groupOk_def)
    with Cons x True assms(1) show ?thesis by (simp add: groupOk_def)
  next
    case False
    have "list_all (\<lambda>e. e = k \<or> singleWord e) (remove1 r xs)"
      using assms(1) Cons by (auto simp: groupOk_def list_all_iff dest: notin_set_remove1)
    moreover have "length (remove1 r xs) \<le> length xs" by (simp add: length_remove1)
    ultimately show ?thesis using assms(1) Cons x False
      by (auto simp: groupOk_def split: if_splits)
  qed
qed

lemma groupOk_butlast:
  assumes "groupOk k g"
  shows "groupOk k (butlast g)"
proof (cases g)
  case Nil
  with assms show ?thesis by simp
next
  case (Cons x xs)
  with assms have x: "x = k" by (simp add: groupOk_def)
  have "list_all (\<lambda>e. e = k \<or> singleWord e) (butlast g)"
    using assms by (auto simp: groupOk_def list_all_iff dest: in_set_butlastD)
  then show ?thesis using assms Cons x
    by (auto simp: groupOk_def split: if_splits)
qed

lemma groupOk_elems: "groupOk k g \<Longrightarrow> e \<in> set g \<Longrightarrow> e = k \<or> singleWord e"
  by (auto simp: groupOk_def list_all_iff)

lemma removeShared_groupOk:
  assumes "groupOk v vs" "groupOk w os" "v \<noteq> w"
    and "\<forall>e \<in> set clone. e = v \<or> singleWord e"
    and "\<forall>e \<in> set oc. e = w \<or> singleWord e"
    and "removeShared clone oc (vs, os) = (vs', os')"
  shows "groupOk v vs' \<and> groupOk w os'"
  using assms
proof (induction clone arbitrary: vs os)
  case Nil
  then show ?case by simp
next
  case (Cons r clone)
  show ?case
  proof (cases "r \<in> set oc")
    case False
    with Cons.prems(6) have "removeShared clone oc (vs, os) = (vs', os')" by (simp add: indexOf_eq)
    from Cons.IH [OF Cons.prems(1-3) _ Cons.prems(5) this] Cons.prems(4) show ?thesis by simp
  next
    case True
    with Cons.prems(5) have rw: "r = w \<or> singleWord r" by blast
    from Cons.prems(4) have rv: "r = v \<or> singleWord r" by simp
    define vs1 where "vs1 = (if indexOf vs r \<noteq> -1 then splice1 (indexOf vs r) vs else vs)"
    define os1 where "os1 = splice1 (indexOf os r) os"
    have "vs1 = remove1 r vs"
      by (cases "r \<in> set vs") (simp_all add: vs1_def indexOf_eq splice1_indexOf_mem remove1_idem)
    moreover have "r = v \<Longrightarrow> singleWord v" using rw Cons.prems(3) by auto
    ultimately have g1: "groupOk v vs1" using Cons.prems(1) by (simp add: groupOk_remove1)
    have "os1 = remove1 r os \<or> os1 = butlast os"
      by (cases "r \<in> set os") (simp_all add: os1_def splice1_indexOf_mem splice1_indexOf_not_mem)
    moreover have "r = w \<Longrightarrow> singleWord w" using rv Cons.prems(3) by auto
    ultimately have g2: "groupOk w os1" using Cons.prems(2) by (auto simp: groupOk_remove1 groupOk_butlast)
    from Cons.prems(6) True have "removeShared clone oc (vs1, os1) = (vs', os')"
      by (simp add: indexOf_eq vs1_def os1_def)
    from Cons.IH [OF g1 g2 Cons.prems(3) _ Cons.prems(5) this] Cons.prems(4) show ?thesis by simp
  qed
qed


lemma groupsOk_iff: "groupsOk syn \<longleftrightarrow> (\<forall>k g. map_of syn k = Some g \<longrightarrow> groupOk k g)"
proof
  assume a: "groupsOk syn"
  show "\<forall>k g. map_of syn k = Some g \<longrightarrow> groupOk k g"
  proof (intro allI impI)
    fix k g
    assume m: "map_of syn k = Some g"
    then have "k \<in> fst ` set syn" by (metis map_of_eq_None_iff option.distinct(1))
    with a m show "groupOk k g" by (auto simp: groupsOk_def list_all_iff)
  qed
next
  assume "\<forall>k g. map_of syn k = Some g \<longrightarrow> groupOk k g"
  then show "groupsOk syn" by (auto simp: groupsOk_def list_all_iff split: option.splits)
qed

lemma groupsOk_update: "groupsOk syn \<Longrightarrow> groupOk k g \<Longrightarrow> groupsOk (AList.update k g syn)"
  by (simp add: groupsOk_iff update_conv')

lemma pushNew_set: "set (pushNew a rs) \<subseteq> set a \<union> set rs"
  by (induction a rs rule: pushNew.induct) auto

lemma pushNew_hd: "a \<noteq> [] \<Longrightarrow> pushNew a rs \<noteq> [] \<and> hd (pushNew a rs) = hd a"
  by (induction a rs rule: pushNew.induct) auto

lemma pushSplits_set:
  "e \<in> set (pushSplits a ss) \<Longrightarrow> e \<in> set a \<or> (\<exists>s \<in> set ss. e \<in> set (wordsOf (trim s)))"
proof (induction a ss rule: pushSplits.induct)
  case (1 a)
  then show ?case by simp
next
  case (2 a s ss)
  from "2.IH" [OF "2.prems" [simplified]] pushNew_set [of a "wordsOf (trim s)"]
  show ?case by auto
qed

lemma pushSplits_hd: "a \<noteq> [] \<Longrightarrow> pushSplits a ss \<noteq> [] \<and> hd (pushSplits a ss) = hd a"
  by (induction a ss rule: pushSplits.induct) (auto simp: pushNew_hd)

lemma synonymsOf_groupOk: "groupOk k (synonymsOf k)"
proof (cases "SEPARATOR \<in> set k")
  case False
  then have i: "indexOf k SEPARATOR = -1" by (simp add: indexOf_eq)
  have w: "singleWord e" if "e \<in> set (wordsOf k)" for e
    using wordsOf_words [OF that] False by (auto simp: singleWord_def)
  show ?thesis
  proof (cases "k \<in> set (wordsOf k)")
    case kin: True
    from wordsOf_words [OF kin] have "SPACE \<notin> set k" by simp
    from wordsOf_single [OF this] kin have "wordsOf k = [k]" by auto
    then show ?thesis by (simp add: synonymsOf_def i indexOf_eq groupOk_def)
  next
    case kout: False
    have "singleWord k \<Longrightarrow> wordsOf k = []"
      using wordsOf_single [of k] kout by (auto simp: singleWord_def)
    with kout w show ?thesis
      by (auto simp: synonymsOf_def i indexOf_eq groupOk_def list_all_iff Let_def)
  qed
next
  case True
  then have i: "indexOf k SEPARATOR \<noteq> -1" by (simp add: indexOf_eq)
  let ?g = "pushSplits [k] (split SEPARATOR k)"
  have h: "?g \<noteq> [] \<and> hd ?g = k" using pushSplits_hd [of "[k]"] by simp
  have "e = k \<or> singleWord e" if "e \<in> set ?g" for e
  proof -
    from pushSplits_set [OF that] consider "e = k" | s where "s \<in> set (split SEPARATOR k)" "e \<in> set (wordsOf (trim s))"
      by auto
    then show ?thesis
    proof cases
      case 1
      then show ?thesis by simp
    next
      case 2
      from split_no_sep [OF 2(1)] set_trim [of s] have "SEPARATOR \<notin> set (trim s)" by auto
      with wordsOf_words [OF 2(2)] show ?thesis by (auto simp: singleWord_def)
    qed
  qed
  with h True show ?thesis by (auto simp: synonymsOf_def i groupOk_def list_all_iff singleWord_def)
qed

lemma findAllSynonyms_groupsOk:
  "groupsOk syn \<Longrightarrow> findAllSynonyms vs syn = Inr syn' \<Longrightarrow> groupsOk syn'"
proof (induction vs arbitrary: syn)
  case Nil
  then show ?case by simp
next
  case (Cons v vs)
  from Cons.prems(2) have "findAllSynonyms vs (AList.update (trim v) (synonymsOf (trim v)) syn) = Inr syn'"
    by (auto simp: Let_def split: if_splits)
  from Cons.IH [OF _ this] Cons.prems(1) show ?case
    by (simp add: groupsOk_update synonymsOf_groupOk)
qed

lemma findAllSynonyms_Inr:
  "\<forall>v \<in> set vs. trim v \<noteq> ''length'' \<Longrightarrow> \<exists>syn'. findAllSynonyms vs syn = Inr syn'"
  by (induction vs arbitrary: syn) (auto simp: Let_def)

lemma removeFromOthers_groupsOk:
  assumes "groupsOk syn" "\<forall>e \<in> set clone. e = v \<or> singleWord e"
  shows "groupsOk (removeFromOthers v clone keys syn)"
  using assms
proof (induction keys arbitrary: syn)
  case Nil
  then show ?case by simp
next
  case (Cons key keys)
  show ?case
  proof (cases "key \<noteq> v \<and> map_of syn v \<noteq> None \<and> map_of syn key \<noteq> None")
    case False
    with Cons show ?thesis by (auto split: option.splits)
  next
    case True
    then obtain vs os where m: "map_of syn v = Some vs" "map_of syn key = Some os" and ne: "key \<noteq> v" by auto
    obtain vs' os' where r: "removeShared clone os (vs, os) = (vs', os')" by (cases "removeShared clone os (vs, os)")
    from Cons.prems(1) m have g: "groupOk v vs" "groupOk key os" by (auto simp: groupsOk_iff)
    from groupOk_elems [OF g(2)] have "\<forall>e \<in> set os. e = key \<or> singleWord e" by blast
    from removeShared_groupOk [OF g ne [symmetric] Cons.prems(2) this r]
    have "groupsOk (AList.update v vs' (AList.update key os' syn))"
      using Cons.prems(1) by (simp add: groupsOk_update)
    from Cons.IH [OF this Cons.prems(2)] m ne r show ?thesis by simp
  qed
qed

lemma removeDuplicates_groupsOk: "groupsOk syn \<Longrightarrow> groupsOk (removeDuplicates vs syn)"
proof (induction vs arbitrary: syn)
  case Nil
  then show ?case by simp
next
  case (Cons v vs)
  show ?case
  proof (cases "map_of syn v")
    case None
    with Cons show ?thesis by simp
  next
    case (Some g)
    with Cons.prems have "groupOk v g" by (auto simp: groupsOk_iff)
    then have "\<forall>e \<in> set g. e = v \<or> singleWord e" by (auto dest: groupOk_elems)
    from removeFromOthers_groupsOk [OF Cons.prems this] Cons.IH Some show ?thesis by simp
  qed
qed

lemma resultFor_not_empty:
  assumes "groupsOk syn" "trim v \<noteq> []"
  shows "resultFor syn v \<noteq> []"
proof (cases "map_of syn (trim v)")
  case None
  with assms show ?thesis by (simp add: resultFor_def)
next
  case (Some g)
  with assms(1) have "g = [] \<or> hd g = trim v" by (auto simp: groupsOk_iff groupOk_def)
  with assms(2) Some show ?thesis by (auto simp: resultFor_def Let_def join_not_Nil)
qed

lemma groupsOk_Nil: "groupsOk []"
  by (simp add: groupsOk_def)

text \<open>
  C8, as the code has it. For answers none of which is blank (empty once trimmed), and
  none of which trims to \<open>length\<close> (a RangeError) or \<open>__proto__\<close>,
  \<open>generateSynonyms\<close> returns one entry per answer and no entry is the empty
  string; where the cross-deduplication has emptied the group of an answer, the entry
  is the trimmed answer.
\<close>

theorem generateSynonyms_entries_not_empty:
  assumes "list_all (\<lambda>v. trim v \<noteq> [] \<and> trim v \<noteq> ''length'' \<and> trim v \<noteq> ''__proto__'') vs"
  shows "\<exists>synonyms results.
           dedupedSynonyms vs = Inr synonyms \<and> generateSynonyms vs = Inr results
           \<and> length results = length vs \<and> list_all (\<lambda>r. r \<noteq> []) results
           \<and> (\<forall>i < length vs. map_of synonyms (trim (vs ! i)) = Some []
                 \<longrightarrow> results ! i = trim (vs ! i))"
proof -
  from assms have "\<forall>v \<in> set vs. trim v \<noteq> ''length''" by (auto simp: list_all_iff)
  from findAllSynonyms_Inr [OF this] obtain syn0 where f: "findAllSynonyms vs [] = Inr syn0" by blast
  from findAllSynonyms_groupsOk [OF groupsOk_Nil f] have "groupsOk syn0" .
  then have ok: "groupsOk (removeDuplicates vs syn0)" by (rule removeDuplicates_groupsOk)
  let ?syn = "removeDuplicates vs syn0"
  have d: "dedupedSynonyms vs = Inr ?syn" by (simp add: dedupedSynonyms_def f)
  then have g: "generateSynonyms vs = Inr (map (resultFor ?syn) vs)" by (simp add: generateSynonyms_def)
  have "list_all (\<lambda>r. r \<noteq> []) (map (resultFor ?syn) vs)"
    using assms ok by (auto simp: list_all_iff resultFor_not_empty)
  moreover have "\<forall>i < length vs. map_of ?syn (trim (vs ! i)) = Some []
                 \<longrightarrow> map (resultFor ?syn) vs ! i = trim (vs ! i)"
    by (simp add: resultFor_def)
  ultimately show ?thesis using d g by simp
qed

theorem generateSynonyms_entries_not_empty_witness:
  "\<exists>synonyms results.
      dedupedSynonyms [''Paris'', ''Paris France''] = Inr synonyms
      \<and> generateSynonyms [''Paris'', ''Paris France''] = Inr results
      \<and> map_of synonyms ''Paris'' = Some []
      \<and> results = [''Paris'', ''Paris France|France'']
      \<and> list_all (\<lambda>r. r \<noteq> []) results"
proof -
  have h: "list_all (\<lambda>v. trim v \<noteq> [] \<and> trim v \<noteq> ''length'' \<and> trim v \<noteq> ''__proto__'')
             [''Paris'', ''Paris France'']"
    by code_simp
  have d: "dedupedSynonyms [''Paris'', ''Paris France'']
             = Inr [(''Paris'', []), (''Paris France'', [''Paris France'', ''France''])]"
    by code_simp
  from generateSynonyms_entries_not_empty [OF h] obtain synonyms results where
    r: "dedupedSynonyms [''Paris'', ''Paris France''] = Inr synonyms"
       "generateSynonyms [''Paris'', ''Paris France''] = Inr results"
       "length results = length [''Paris'', ''Paris France'']"
       "list_all (\<lambda>r. r \<noteq> []) results"
       "\<forall>i < length [''Paris'', ''Paris France''].
           map_of synonyms (trim ([''Paris'', ''Paris France''] ! i)) = Some []
             \<longrightarrow> results ! i = trim ([''Paris'', ''Paris France''] ! i)"
    by blast
  from r(1) d have s: "synonyms = [(''Paris'', []), (''Paris France'', [''Paris France'', ''France''])]" by simp
  then have m: "map_of synonyms ''Paris'' = Some []" by simp
  have e: "generateSynonyms [''Paris'', ''Paris France''] = Inr [''Paris'', ''Paris France|France'']"
    by code_simp
  with r(2) have "results = [''Paris'', ''Paris France|France'']" by simp
  with r m show ?thesis by blast
qed

text \<open>
  A blank answer gives an empty entry: its group is the one empty word.
\<close>

theorem generateSynonyms_blank_entry:
  "generateSynonyms [''''] = Inr [''''] \<and> generateSynonyms [''Paris'', '' ''] = Inr [''Paris'', '''']"
proof -
  have a: "generateSynonyms [''''] = Inr ['''']" by code_simp
  have b: "generateSynonyms [''Paris'', '' ''] = Inr [''Paris'', '''']" by code_simp
  from a b show ?thesis by simp
qed

text \<open>
  C1: no word is in two of the groups that \<open>generateSynonyms\<close> returns. The code
  does not achieve this. For the answers \<open>Bora\<close> and \<open>Bora Bora\<close> the pass removes
  the first \<open>Bora\<close> of the second group and empties the first group, which then
  falls back to \<open>Bora\<close>: both returned groups hold the word \<open>Bora\<close>. For answers
  with trailing spaces the pass reads \<open>synonyms[value]\<close> with the untrimmed value,
  finds nothing and removes nothing.
\<close>

theorem generateSynonyms_shared_word:
  "generateSynonyms [''Bora'', ''Bora Bora''] = Inr [''Bora'', ''Bora Bora|Bora'']
   \<and> getSynonyms (Some ''Bora'') = [''Bora'']
   \<and> getSynonyms (Some ''Bora Bora|Bora'') = [''Bora Bora'', ''Bora'']
   \<and> generateSynonyms [''red car '', ''red bus ''] = Inr [''red car|red|car'', ''red bus|red|bus'']"
proof -
  have a: "generateSynonyms [''Bora'', ''Bora Bora''] = Inr [''Bora'', ''Bora Bora|Bora'']" by code_simp
  have b: "getSynonyms (Some ''Bora'') = [''Bora'']" by code_simp
  have c: "getSynonyms (Some ''Bora Bora|Bora'') = [''Bora Bora'', ''Bora'']" by code_simp
  have d: "generateSynonyms [''red car '', ''red bus ''] = Inr [''red car|red|car'', ''red bus|red|bus'']"
    by code_simp
  from a b c d show ?thesis by simp
qed

section \<open>Properties of the session\<close>

text \<open>
  C2: three unresolved turns in a row end the session (reprompt, offer to quit, final
  tell), and a resolved or dictionary-matched turn in between resets \<open>fallbackCount\<close>
  to 0. The code does not reset the count on every such turn: \<open>nextQuestion\<close> sets
  \<open>fallbackCount\<close> to 0 only on the path that asks a next question. A turn that resolves the last question of the
  round ends the round and leaves the count as \<open>unknownIntent\<close> incremented it: after
  one unresolved turn (reprompt) and the fuzzy-matched answer \<open>Pariss\<close> to the last
  question, the next unresolved turn finds the count at 2, raises it to 3 and ends the
  conversation. On a question that is not the last, the same kind of turn resets the
  count and the next unresolved turn only reprompts.
\<close>

theorem fallbackCount_kept_at_round_end:
  "fallbackTurns lastQuestionSession
       [fallbackRequest ''xyzzy'', fallbackRequest ''Pariss'', fallbackRequest ''plugh''] []
     = [(Reprompt, Some 1), (RoundEnded, Some 2), (FinalTell, Some 3)]
   \<and> matchAnswers [Some ''Paris'', Some ''London''] ''Pariss'' = Some 0
   \<and> fallbackTurns (lastQuestionSession\<lparr>currentQuestion := 0\<rparr>)
       [fallbackRequest ''xyzzy'', fallbackRequest ''I think london'', fallbackRequest ''plugh''] [7/10, 3/10]
     = [(Reprompt, Some 1), (AskQuestion, Some 0), (Reprompt, Some 1)]"
proof -
  have a: "fallbackTurns lastQuestionSession
       [fallbackRequest ''xyzzy'', fallbackRequest ''Pariss'', fallbackRequest ''plugh''] []
     = [(Reprompt, Some 1), (RoundEnded, Some 2), (FinalTell, Some 3)]"
    unfolding lastQuestionSession_def fallbackRequest_def by code_simp
  have b: "matchAnswers [Some ''Paris'', Some ''London''] ''Pariss'' = Some 0" by code_simp
  have c: "fallbackTurns (lastQuestionSession\<lparr>currentQuestion := 0\<rparr>)
       [fallbackRequest ''xyzzy'', fallbackRequest ''I think london'', fallbackRequest ''plugh''] [7/10, 3/10]
     = [(Reprompt, Some 1), (AskQuestion, Some 0), (Reprompt, Some 1)]"
    unfolding lastQuestionSession_def fallbackRequest_def by code_simp
  from a b c show ?thesis by simp
qed

text \<open>
  The part of C2 that holds: from a count of 0 (or none), three unresolved turns in a
  row get the reprompt, the offer to quit and the final tell.
\<close>

lemma unknownIntent_unresolved:
  assumes "unresolved s req"
  shows "unknownIntent s req other rs
     = (let n = (case fallbackCount s of None \<Rightarrow> 0 | Some n \<Rightarrow> n) + 1
        in Some (Inr (s\<lparr>fallbackCount := Some n\<rparr>,
                      if n = 1 then Reprompt else if n = 2 then OfferToQuit else FinalTell, rs)))"
  using assms
  by (subst unknownIntent.simps)
     (auto simp: unresolved_def Let_def handleNonDictionaryInput_def split: option.splits)

lemma unresolved_fallbackCount: "unresolved (s\<lparr>fallbackCount := c\<rparr>) req = unresolved s req"
  by (simp add: unresolved_def)

theorem fallback_escalation:
  assumes "fallbackCount s = None \<or> fallbackCount s = Some 0"
    and "unresolved s r1 \<and> unresolved s r2 \<and> unresolved s r3"
  shows "fallbackTurns s [r1, r2, r3] rs = [(Reprompt, Some 1), (OfferToQuit, Some 2), (FinalTell, Some 3)]"
proof -
  define s1 where "s1 = s\<lparr>fallbackCount := Some 1\<rparr>"
  define s2 where "s2 = s1\<lparr>fallbackCount := Some 2\<rparr>"
  define s3 where "s3 = s2\<lparr>fallbackCount := Some 3\<rparr>"
  from assms have u: "unresolved s r1" "unresolved s1 r2" "unresolved s2 r3"
    by (simp_all add: s1_def s2_def unresolved_fallbackCount)
  from assms(1) have t1: "unknownIntent s r1 False rs = Some (Inr (s1, Reprompt, rs))"
    unfolding unknownIntent_unresolved [OF u(1)] by (auto simp: s1_def)
  have t2: "unknownIntent s1 r2 False rs = Some (Inr (s2, OfferToQuit, rs))"
    unfolding unknownIntent_unresolved [OF u(2)] by (simp add: s1_def s2_def)
  have t3: "unknownIntent s2 r3 False rs = Some (Inr (s3, FinalTell, rs))"
    unfolding unknownIntent_unresolved [OF u(3)] by (simp add: s1_def s2_def s3_def)
  have "fallbackTurns s [r1, r2, r3] rs
      = [(Reprompt, fallbackCount s1), (OfferToQuit, fallbackCount s2), (FinalTell, fallbackCount s3)]"
    by (simp add: t1 t2 t3)
  then show ?thesis by (simp add: s1_def s2_def s3_def)
qed

theorem fallback_escalation_witness:
  "fallbackTurns lastQuestionSession
      [fallbackRequest ''xyzzy'', fallbackRequest ''plover'', fallbackRequest ''plugh''] []
     = [(Reprompt, Some 1), (OfferToQuit, Some 2), (FinalTell, Some 3)]"
proof -
  have f: "fallbackCount lastQuestionSession = None \<or> fallbackCount lastQuestionSession = Some 0"
    by (simp add: lastQuestionSession_def)
  have u: "unresolved lastQuestionSession (fallbackRequest ''xyzzy'')
         \<and> unresolved lastQuestionSession (fallbackRequest ''plover'')
         \<and> unresolved lastQuestionSession (fallbackRequest ''plugh'')"
    unfolding lastQuestionSession_def fallbackRequest_def by code_simp
  from fallback_escalation [OF f u] show ?thesis .
qed

text \<open>
  Whenever a turn handled by \<open>unknownIntent\<close> asks the next question, the count is 0
  afterwards.
\<close>

lemma nextQuestion_AskQuestion:
  "nextQuestion s rs = Some (Inr (s', AskQuestion, rs')) \<Longrightarrow> fallbackCount s' = Some 0"
  by (auto simp: nextQuestion_def Let_def split: if_splits option.splits)

lemma handleDictionaryInput_AskQuestion:
  "handleDictionaryInput s rs = Some (Inr (s', AskQuestion, rs')) \<Longrightarrow> fallbackCount s' = Some 0"
  by (auto simp: handleDictionaryInput_def dest: nextQuestion_AskQuestion split: option.splits)

lemma unknownIntent_triggered_AskQuestion:
  "unknownIntent s req True rs = Some (Inr (s', AskQuestion, rs')) \<Longrightarrow> fallbackCount s' = Some 0"
  by (subst (asm) unknownIntent.simps)
     (auto simp: Let_def handleNonDictionaryInput_def dest: handleDictionaryInput_AskQuestion split: if_splits)

lemma valueIntent_AskQuestion:
  "valueIntent s req choice rs = Some (Inr (s', AskQuestion, rs')) \<Longrightarrow> fallbackCount s' = Some 0"
  by (subst (asm) valueIntent.simps)
     (auto simp: Let_def dest: nextQuestion_AskQuestion unknownIntent_triggered_AskQuestion
           split: option.splits if_splits)

theorem next_question_resets_fallbackCount:
  "unknownIntent s req other rs = Some (Inr (s', AskQuestion, rs')) \<Longrightarrow> fallbackCount s' = Some 0"
  by (subst (asm) unknownIntent.simps)
     (auto simp: Let_def handleNonDictionaryInput_def
           dest: handleDictionaryInput_AskQuestion valueIntent_AskQuestion split: if_splits option.splits)

theorem next_question_resets_fallbackCount_witness:
  "\<exists>s' rs'. unknownIntent (lastQuestionSession\<lparr>currentQuestion := 0, fallbackCount := Some 1\<rparr>)
               (fallbackRequest ''I think london'') False [7/10, 3/10] = Some (Inr (s', AskQuestion, rs'))
           \<and> fallbackCount s' = Some 0"
proof -
  have e: "unknownIntent (lastQuestionSession\<lparr>currentQuestion := 0, fallbackCount := Some 1\<rparr>)
               (fallbackRequest ''I think london'') False [7/10, 3/10]
        = Some (Inr (\<lparr>fallbackCount = Some 0, selectedAnswers = Some [Some ''London'', Some ''Paris''],
                       correctAnswer = 1, sessionAnswers = [[''Rome'', ''Oslo''], [''Paris'', ''London'']],
                       score = 1, currentQuestion = 1, gameLength = 2, correct = Some False\<rparr>,
                     AskQuestion, []))"
    unfolding lastQuestionSession_def fallbackRequest_def by code_simp
  from next_question_resets_fallbackCount [OF e] e show ?thesis by blast
qed

end
